theory Spec2Isabelle
  imports Main "HOL-Library.AList"
begin

section \<open>Status values (include/status\_rollup/status.hpp)\<close>

text \<open>
  \<^verbatim>\<open>enum class Status : uint8_t { Green = 0, Yellow = 1, Red = 2, Unknown = 3 }\<close>.
  The relational operators of a scoped enumeration compare the underlying values, which
  \<open>status_rank\<close> gives; \<open>status_of_rank\<close> is \<^verbatim>\<open>static_cast<Status>(i)\<close> for the
  indices the code casts (0, 1, 2).
\<close>

datatype Status = Green | Yellow | Red | Unknown

fun status_rank :: "Status \<Rightarrow> nat" where
  "status_rank Green = 0"
| "status_rank Yellow = 1"
| "status_rank Red = 2"
| "status_rank Unknown = 3"

definition status_of_rank :: "nat \<Rightarrow> Status" where
  "status_of_rank i =
     (if i = 0 then Green else if i = 1 then Yellow else if i = 2 then Red else Unknown)"

definition string_to_status :: "string \<Rightarrow> Status" where
  "string_to_status s =
     (if s = ''green'' then Green
      else if s = ''yellow'' then Yellow
      else if s = ''red'' then Red
      else Unknown)"

fun status_to_string :: "Status \<Rightarrow> string" where
  "status_to_string Green = ''green''"
| "status_to_string Yellow = ''yellow''"
| "status_to_string Red = ''red''"
| "status_to_string Unknown = ''unknown''"

text \<open>
  The severity order in the words of the specification: Green < Yellow < Red, with Unknown
  outside the order (comparable with nothing). \<open>is_severity_max xs m\<close> says that \<open>m\<close> is the
  maximum element of \<open>xs\<close> under that order.
\<close>

fun severity_less :: "Status \<Rightarrow> Status \<Rightarrow> bool" where
  "severity_less Green Yellow = True"
| "severity_less Green Red = True"
| "severity_less Yellow Red = True"
| "severity_less _ _ = False"

definition is_severity_max :: "Status list \<Rightarrow> Status \<Rightarrow> bool" where
  "is_severity_max xs m = (m \<in> set xs \<and> list_all (\<lambda>x. x = m \<or> severity_less x m) xs)"

section \<open>Rollup rules (src/rollup\_rule.cpp)\<close>

text \<open>
  The counters of the rules are C++ \<^verbatim>\<open>int\<close>s that count elements of one input span; they
  stay below the span's length, so they are modelled as unbounded integers.
\<close>

definition WorstStatusRule_compute :: "Status list \<Rightarrow> Status" where
  "WorstStatusRule_compute inputs =
     (if inputs = [] then Unknown
      else fold (\<lambda>status worst. if status_rank status > status_rank worst then status else worst)
             inputs Green)"

definition threshold_counts :: "Status list \<Rightarrow> int \<times> int" where
  "threshold_counts inputs =
     fold (\<lambda>status (red_count, yellow_count).
             if status = Red then (red_count + 1, yellow_count)
             else if status = Yellow then (red_count, yellow_count + 1)
             else (red_count, yellow_count))
          inputs (0, 0)"

definition ThresholdRollupRule_compute :: "int \<Rightarrow> int \<Rightarrow> int \<Rightarrow> Status list \<Rightarrow> Status" where
  "ThresholdRollupRule_compute red_threshold yellow_to_yellow yellow_to_red inputs =
     (if inputs = [] then Unknown
      else (case threshold_counts inputs of (red_count, yellow_count) \<Rightarrow>
        if red_count \<ge> red_threshold then Red
        else if yellow_count \<ge> yellow_to_red then Red
        else if yellow_count \<ge> yellow_to_yellow then Yellow
        else Green))"

text \<open>\<^verbatim>\<open>int counts[3]\<close>, indexed by the status's underlying value.\<close>

definition majority_counts :: "Status list \<Rightarrow> int list" where
  "majority_counts inputs =
     fold (\<lambda>status counts.
             if status \<noteq> Unknown
             then counts[status_rank status := counts ! status_rank status + 1]
             else counts)
          inputs [0, 0, 0]"

definition majority_scan :: "int list \<Rightarrow> int \<times> Status" where
  "majority_scan counts =
     fold (\<lambda>i (max_count, majority).
             if counts ! i > max_count then (counts ! i, status_of_rank i)
             else (max_count, majority))
          [0, 1, 2] (0, Green)"

definition MajorityVoteRule_compute :: "Status list \<Rightarrow> Status" where
  "MajorityVoteRule_compute inputs =
     (if inputs = [] then Unknown else snd (majority_scan (majority_counts inputs)))"

text \<open>The rule objects and their virtual \<^verbatim>\<open>compute\<close>.\<close>

datatype RollupRule =
    WorstStatusRule
  | ThresholdRollupRule int int int
  | MajorityVoteRule

fun RollupRule_compute :: "RollupRule \<Rightarrow> Status list \<Rightarrow> Status" where
  "RollupRule_compute WorstStatusRule inputs = WorstStatusRule_compute inputs"
| "RollupRule_compute (ThresholdRollupRule r yy yr) inputs =
     ThresholdRollupRule_compute r yy yr inputs"
| "RollupRule_compute MajorityVoteRule inputs = MajorityVoteRule_compute inputs"

text \<open>
  The errors the engine throws; all are \<^verbatim>\<open>std::runtime_error\<close> in the source and differ by
  their message: "Unknown rule: ...", "Failed to create all nodes - possible circular
  dependency or missing dependency", "Unknown node: ...".
\<close>

datatype error =
    UnknownRule string
  | StructuralError
  | UnknownNode string

text \<open>
  \<^verbatim>\<open>params.value(key, default)\<close> on the parsed parameter object, an association list from
  parameter names to integers.
\<close>

definition json_value :: "(string \<times> int) list \<Rightarrow> string \<Rightarrow> int \<Rightarrow> int" where
  "json_value params key dflt = (case map_of params key of None \<Rightarrow> dflt | Some v \<Rightarrow> v)"

definition RuleFactory_create :: "string \<Rightarrow> (string \<times> int) list \<Rightarrow> error + RollupRule" where
  "RuleFactory_create rule_name params =
     (if rule_name = ''worst_status'' then Inr WorstStatusRule
      else if rule_name = ''threshold_rollup'' then
        Inr (ThresholdRollupRule (json_value params ''red_threshold'' 1)
               (json_value params ''yellow_to_yellow'' 1)
               (json_value params ''yellow_to_red'' 2))
      else if rule_name = ''majority_vote'' then Inr MajorityVoteRule
      else Inl (UnknownRule rule_name))"

section \<open>Nodes (src/status\_node.cpp)\<close>

text \<open>
  A \<^verbatim>\<open>StatusNode*\<close> is modelled as the index of the element in the list of elements that
  the pipeline owns: \<^verbatim>\<open>registerGElement\<close> allocates the next index, and no element is ever
  moved or freed while the engine lives. \<open>new_StatusNode\<close> is the default constructor.
  The members \<^verbatim>\<open>name_\<close>, \<^verbatim>\<open>status_\<close>, \<^verbatim>\<open>rule_\<close>, \<^verbatim>\<open>dependencies_\<close> are the fields
  \<open>sn_name\<close>, \<open>sn_status\<close>, \<open>sn_rule\<close>, \<open>sn_dependencies\<close>; the members \<^verbatim>\<open>nodes_\<close>,
  \<^verbatim>\<open>leaf_nodes_\<close>, \<^verbatim>\<open>pipeline_\<close> of the engine are \<open>impl_nodes\<close>, \<open>impl_leaf_nodes\<close>,
  \<open>impl_pipeline\<close>.
\<close>

record StatusNode =
  sn_name :: string
  sn_status :: Status
  sn_rule :: "RollupRule option"
  sn_dependencies :: "nat list"

definition new_StatusNode :: StatusNode where
  "new_StatusNode = \<lparr>sn_name = [], sn_status = Unknown, sn_rule = None, sn_dependencies = []\<rparr>"

text \<open>
  \<^verbatim>\<open>StatusNode::run\<close> for the element at index \<open>p\<close>: a node without a rule keeps its status,
  a node with a rule reads the current status of each dependency in declared order.
\<close>

definition StatusNode_run :: "nat \<Rightarrow> StatusNode list \<Rightarrow> StatusNode list" where
  "StatusNode_run p pl =
     (case sn_rule (pl ! p) of
        None \<Rightarrow> pl
      | Some r \<Rightarrow>
          pl[p := (pl ! p)\<lparr>sn_status :=
                 RollupRule_compute r (map (\<lambda>dep. sn_status (pl ! dep)) (sn_dependencies (pl ! p)))\<rparr>])"

text \<open>
  Modelled from the spec: \<^verbatim>\<open>GPipeline::process\<close> belongs to the CGraph library, which is not
  part of the sources. The specification (4.4) has the evaluation walk the nodes in a
  topological order and run each one once; the order in which the elements were registered
  is such an order, because \<^verbatim>\<open>load_config\<close> registers a node after its dependencies (the
  set of elements it passes to \<^verbatim>\<open>registerGElement\<close> holds the nodes it then adds with
  \<^verbatim>\<open>add_dependency\<close>). Lemma \<open>process_any_schedule\<close> below shows that every other order
  that respects the dependencies gives the same result.
\<close>

definition GPipeline_process :: "StatusNode list \<Rightarrow> StatusNode list" where
  "GPipeline_process pl = fold StatusNode_run [0..<length pl] pl"

section \<open>The engine (src/status\_tree.cpp)\<close>

text \<open>
  A node specification of the parsed description; every key is optional.
  \<open>node_configs\<close> is the \<^verbatim>\<open>unordered_map\<close> of the specifications, as the list of its entries
  in the order in which both passes iterate it (keys distinct, order arbitrary).
\<close>

record NodeSpec =
  spec_type :: "string option"
  spec_rule :: "string option"
  spec_params :: "(string \<times> int) list option"
  spec_dependencies :: "string list option"

definition type_of :: "NodeSpec \<Rightarrow> string" where
  "type_of node_config = (case spec_type node_config of None \<Rightarrow> ''imported'' | Some t \<Rightarrow> t)"

definition rule_name_of :: "NodeSpec \<Rightarrow> string" where
  "rule_name_of node_config =
     (case spec_rule node_config of None \<Rightarrow> ''worst_status'' | Some r \<Rightarrow> r)"

definition params_of :: "NodeSpec \<Rightarrow> (string \<times> int) list" where
  "params_of node_config = (case spec_params node_config of None \<Rightarrow> [] | Some ps \<Rightarrow> ps)"

definition dep_names_of :: "NodeSpec \<Rightarrow> string list" where
  "dep_names_of node_config =
     (case spec_dependencies node_config of None \<Rightarrow> [] | Some ds \<Rightarrow> ds)"

record Impl =
  impl_nodes :: "(string \<times> nat) list"
  impl_leaf_nodes :: "nat list"
  impl_pipeline :: "StatusNode list"

definition Impl_init :: Impl where
  "Impl_init = \<lparr>impl_nodes = [], impl_leaf_nodes = [], impl_pipeline = []\<rparr>"

text \<open>
  A step that can throw returns the exception (or the value) together with the engine as
  the step left it: the engine object outlives the exception. \<^verbatim>\<open>registerGElement\<close>
  is taken to succeed, so "Failed to create node" is never thrown.
\<close>

text \<open>First pass of \<^verbatim>\<open>load_config\<close>: register every imported node.\<close>

fun create_leaves :: "(string \<times> NodeSpec) list \<Rightarrow> Impl \<Rightarrow> Impl" where
  "create_leaves [] st = st"
| "create_leaves ((node_name, node_config) # rest) st =
     (if type_of node_config = ''imported'' then
        create_leaves rest
          (st\<lparr>impl_pipeline := impl_pipeline st @ [new_StatusNode\<lparr>sn_name := node_name\<rparr>],
              impl_leaf_nodes := impl_leaf_nodes st @ [length (impl_pipeline st)],
              impl_nodes := AList.update node_name (length (impl_pipeline st)) (impl_nodes st)\<rparr>)
      else create_leaves rest st)"

text \<open>
  The body of the second pass for one ready specification: register the element, attach the
  rule (which may throw, after the registration), add the dependencies that \<^verbatim>\<open>nodes_\<close>
  knows, and enter the node in \<^verbatim>\<open>nodes_\<close>.
\<close>

definition create_derived :: "string \<Rightarrow> NodeSpec \<Rightarrow> string list \<Rightarrow> Impl \<Rightarrow> (error + unit) \<times> Impl" where
  "create_derived node_name node_config dep_names st =
     (let node_ptr = length (impl_pipeline st);
          st1 = st\<lparr>impl_pipeline := impl_pipeline st @ [new_StatusNode\<lparr>sn_name := node_name\<rparr>]\<rparr>
      in case RuleFactory_create (rule_name_of node_config) (params_of node_config) of
           Inl e \<Rightarrow> (Inl e, st1)
         | Inr rule \<Rightarrow>
             (Inr (),
              st1\<lparr>impl_pipeline := (impl_pipeline st1)[node_ptr :=
                       (impl_pipeline st1 ! node_ptr)\<lparr>sn_rule := Some rule,
                          sn_dependencies := List.map_filter (map_of (impl_nodes st)) dep_names\<rparr>],
                  impl_nodes := AList.update node_name node_ptr (impl_nodes st)\<rparr>))"

text \<open>One pass of the \<^verbatim>\<open>for\<close> loop inside \<^verbatim>\<open>while (progress)\<close>.\<close>

fun scan_pass ::
  "(string \<times> NodeSpec) list \<Rightarrow> string set \<Rightarrow> bool \<Rightarrow> Impl \<Rightarrow> (error + string set \<times> bool) \<times> Impl" where
  "scan_pass [] created progress st = (Inr (created, progress), st)"
| "scan_pass ((node_name, node_config) # rest) created progress st =
     (if node_name \<in> created then scan_pass rest created progress st
      else if type_of node_config \<noteq> ''derived'' then scan_pass rest created progress st
      else if \<not> list_all (\<lambda>dep_name. dep_name \<in> created) (dep_names_of node_config)
      then scan_pass rest created progress st
      else (case create_derived node_name node_config (dep_names_of node_config) st of
              (Inl e, st') \<Rightarrow> (Inl e, st')
            | (Inr _, st') \<Rightarrow> scan_pass rest (insert node_name created) True st'))"

text \<open>The \<^verbatim>\<open>while (progress)\<close> loop.\<close>

function derive_loop ::
  "(string \<times> NodeSpec) list \<Rightarrow> string set \<Rightarrow> Impl \<Rightarrow> (error + string set) \<times> Impl" where
  "derive_loop node_configs created st =
     (case scan_pass node_configs created False st of
        (Inl e, st') \<Rightarrow> (Inl e, st')
      | (Inr (created', progress), st') \<Rightarrow>
          if progress then derive_loop node_configs created' st' else (Inr created', st'))"
  by pat_completeness auto
termination
proof (relation "measure (\<lambda>(node_configs, created, st). card (fst ` set node_configs - created))")
  show "wf (measure (\<lambda>(node_configs, created, st). card (fst ` set node_configs - created)))"
    by simp
next
  fix node_configs :: "(string \<times> NodeSpec) list" and created st x st' y created' progress
  assume a: "(x, st') = scan_pass node_configs created False st" "x = Inr y"
    "(created', progress) = y" "progress"
  have grow: "created \<subseteq> c' \<and> c' \<subseteq> created \<union> fst ` set l \<and> (p' \<and> \<not> p \<longrightarrow> c' \<noteq> created)"
    if "scan_pass l created p s = (Inr (c', p'), s')" for l created p s c' p' s'
    using that
  proof (induction l created p s rule: scan_pass.induct)
    case (1 created progress st)
    then show ?case by simp
  next
    case (2 node_name node_config rest created progress st)
    show ?case
    proof (cases "node_name \<in> created \<or> type_of node_config \<noteq> ''derived''
        \<or> \<not> list_all (\<lambda>dep_name. dep_name \<in> created) (dep_names_of node_config)")
      case True
      with 2 show ?thesis by (auto split: if_splits)
    next
      case False
      with 2(5) obtain st' where
        c: "create_derived node_name node_config (dep_names_of node_config) st = (Inr (), st')"
        and r: "scan_pass rest (insert node_name created) True st' = (Inr (c', p'), s')"
        by (auto split: prod.splits sum.splits)
      from False c r 2(4)
      have "insert node_name created \<subseteq> c' \<and> c' \<subseteq> insert node_name created \<union> fst ` set rest"
        by simp
      with False show ?thesis by auto
    qed
  qed
  from a have "scan_pass node_configs created False st = (Inr (created', True), st')"
    by (cases "scan_pass node_configs created False st") auto
  from grow[OF this] have "created \<subset> created'" "created' \<subseteq> created \<union> fst ` set node_configs"
    by auto
  then have "fst ` set node_configs - created' \<subset> fst ` set node_configs - created"
    by blast
  then have "card (fst ` set node_configs - created') < card (fst ` set node_configs - created)"
    by (intro psubset_card_mono) auto
  then show "((node_configs, created', st'), (node_configs, created, st))
      \<in> measure (\<lambda>(node_configs, created, st). card (fst ` set node_configs - created))"
    by simp
qed

declare derive_loop.simps [simp del]

text \<open>
  \<^verbatim>\<open>load_config\<close> from the point where \<^verbatim>\<open>node_configs\<close> is filled: opening the file and
  parsing the JSON document come before any change to the engine and are not modelled.
  \<^verbatim>\<open>created\<close> starts as the key set of \<^verbatim>\<open>nodes_\<close>; the final test compares the two
  sizes, where the size of \<^verbatim>\<open>node_configs\<close> is the length of the list of its entries.
\<close>

definition load_config :: "(string \<times> NodeSpec) list \<Rightarrow> Impl \<Rightarrow> (error + unit) \<times> Impl" where
  "load_config node_configs st =
     (let st1 = create_leaves node_configs st
      in case derive_loop node_configs (set (map fst (impl_nodes st1))) st1 of
           (Inl e, st2) \<Rightarrow> (Inl e, st2)
         | (Inr created, st2) \<Rightarrow>
             if card created \<noteq> length node_configs then (Inl StructuralError, st2)
             else (Inr (), st2))"

definition set_status :: "string \<Rightarrow> Status \<Rightarrow> Impl \<Rightarrow> (error + unit) \<times> Impl" where
  "set_status node_name status st =
     (case map_of (impl_nodes st) node_name of
        None \<Rightarrow> (Inl (UnknownNode node_name), st)
      | Some p \<Rightarrow>
          (Inr (), st\<lparr>impl_pipeline := (impl_pipeline st)[p := (impl_pipeline st ! p)\<lparr>sn_status := status\<rparr>]\<rparr>))"

definition compute :: "Impl \<Rightarrow> Impl" where
  "compute st = st\<lparr>impl_pipeline := GPipeline_process (impl_pipeline st)\<rparr>"

definition get_status :: "Impl \<Rightarrow> string \<Rightarrow> Status option" where
  "get_status st node_name =
     (case map_of (impl_nodes st) node_name of
        None \<Rightarrow> None
      | Some p \<Rightarrow> Some (sn_status (impl_pipeline st ! p)))"

section \<open>Notions used to state and prove the properties\<close>

text \<open>
  \<open>ready n c created\<close> collects the three guards of the second pass: the specification is not
  yet created, it is a derived one, and all its dependencies are created.
\<close>

definition ready :: "string \<Rightarrow> NodeSpec \<Rightarrow> string set \<Rightarrow> bool" where
  "ready n c C = (n \<notin> C \<and> type_of c = ''derived'' \<and> list_all (\<lambda>d. d \<in> C) (dep_names_of c))"

text \<open>The node objects that a build creates: all statuses start as Unknown.\<close>

definition leaf_node :: "string \<Rightarrow> StatusNode" where
  "leaf_node n = \<lparr>sn_name = n, sn_status = Unknown, sn_rule = None, sn_dependencies = []\<rparr>"

definition derived_node :: "string \<Rightarrow> RollupRule \<Rightarrow> nat list \<Rightarrow> StatusNode" where
  "derived_node n r ds = \<lparr>sn_name = n, sn_status = Unknown, sn_rule = Some r, sn_dependencies = ds\<rparr>"

text \<open>Every dependency pointer of a pipeline element points to an element registered earlier.\<close>

definition deps_earlier :: "StatusNode list \<Rightarrow> bool" where
  "deps_earlier pl = (\<forall>p < length pl. \<forall>d \<in> set (sn_dependencies (pl ! p)). d < p)"

text \<open>
  The invariant of the build: a name in \<^verbatim>\<open>nodes_\<close> is a key of the description, and the node
  it points to is the one its specification describes.
\<close>

definition node_ok :: "Impl \<Rightarrow> string \<Rightarrow> NodeSpec \<Rightarrow> nat \<Rightarrow> bool" where
  "node_ok st n c p =
     (p < length (impl_pipeline st) \<and>
      (type_of c = ''imported'' \<and> impl_pipeline st ! p = leaf_node n
       \<or> type_of c = ''derived''
         \<and> (\<exists>r. RuleFactory_create (rule_name_of c) (params_of c) = Inr r
              \<and> impl_pipeline st ! p =
                  derived_node n r (map (the \<circ> map_of (impl_nodes st)) (dep_names_of c)))
         \<and> (\<forall>d \<in> set (dep_names_of c). \<exists>q. map_of (impl_nodes st) d = Some q \<and> q < p)))"

definition build_inv :: "(string \<times> NodeSpec) list \<Rightarrow> Impl \<Rightarrow> bool" where
  "build_inv cfg st =
     (fst ` set (impl_nodes st) \<subseteq> fst ` set cfg
      \<and> (\<forall>n c p. (n, c) \<in> set cfg \<and> map_of (impl_nodes st) n = Some p \<longrightarrow> node_ok st n c p)
      \<and> deps_earlier (impl_pipeline st))"

text \<open>
  The dependency references of a description, as pairs (specification, dependency):
  \<open>dependency_refs\<close> takes them from every specification, \<open>derived_refs\<close> only from the derived
  ones, which are those that the build reads. \<open>has_cycle\<close>: some reference lies on a cycle.
  \<open>has_dangling\<close>: some reference names an identity that is no key of the description.
\<close>

definition dependency_refs :: "(string \<times> NodeSpec) list \<Rightarrow> (string \<times> string) list" where
  "dependency_refs cfg = concat (map (\<lambda>(n, c). map (Pair n) (dep_names_of c)) cfg)"

definition derived_refs :: "(string \<times> NodeSpec) list \<Rightarrow> (string \<times> string) list" where
  "derived_refs cfg = dependency_refs (filter (\<lambda>(n, c). type_of c = ''derived'') cfg)"

definition has_cycle :: "(string \<times> string) list \<Rightarrow> bool" where
  "has_cycle es = list_ex (\<lambda>(a, b). (a, a) \<in> (set es)\<^sup>+) es"

definition has_dangling :: "(string \<times> NodeSpec) list \<Rightarrow> (string \<times> string) list \<Rightarrow> bool" where
  "has_dangling cfg es = list_ex (\<lambda>(a, b). b \<notin> fst ` set cfg) es"

text \<open>
  The states of a built engine are those reached from the build by imports and evaluations.
  An import that throws (unknown node) leaves the engine as it was.
\<close>

datatype op = Import string Status | Evaluate

fun apply_op :: "op \<Rightarrow> Impl \<Rightarrow> Impl" where
  "apply_op (Import node_name status) st = snd (set_status node_name status st)"
| "apply_op Evaluate st = compute st"

definition run_ops :: "op list \<Rightarrow> Impl \<Rightarrow> Impl" where
  "run_ops ops st = fold apply_op ops st"

text \<open>
  Two pipelines have the same topology when they agree on names, rules and dependencies, and
  the same leaf statuses when they agree on the status of every node without a rule. A node
  is consistent when it has no rule or its status is what its rule computes from the current
  statuses of its dependencies.
\<close>

definition same_topology :: "StatusNode list \<Rightarrow> StatusNode list \<Rightarrow> bool" where
  "same_topology a b =
     list_all2 (\<lambda>x y. sn_name x = sn_name y \<and> sn_rule x = sn_rule y
                  \<and> sn_dependencies x = sn_dependencies y) a b"

definition same_leaf_statuses :: "StatusNode list \<Rightarrow> StatusNode list \<Rightarrow> bool" where
  "same_leaf_statuses a b =
     list_all2 (\<lambda>x y. sn_rule x = None \<longrightarrow> sn_status x = sn_status y) a b"

definition consistent :: "StatusNode list \<Rightarrow> nat \<Rightarrow> bool" where
  "consistent pl p =
     (case sn_rule (pl ! p) of
        None \<Rightarrow> True
      | Some r \<Rightarrow> sn_status (pl ! p) =
          RollupRule_compute r (map (\<lambda>dep. sn_status (pl ! dep)) (sn_dependencies (pl ! p))))"

text \<open>
  A schedule runs every element of the pipeline once, each after all its dependencies:
  \<open>schedule_ok pl done ord\<close> checks the order \<open>ord\<close> after the elements \<open>done\<close> have run. These are
  the orders in which an executor that respects the registered dependencies can run the
  elements.
\<close>

fun schedule_ok :: "StatusNode list \<Rightarrow> nat list \<Rightarrow> nat list \<Rightarrow> bool" where
  "schedule_ok pl done [] = True"
| "schedule_ok pl done (p # ps) =
     (p < length pl \<and> p \<notin> set done
      \<and> list_all (\<lambda>d. d \<in> set done) (sn_dependencies (pl ! p))
      \<and> schedule_ok pl (done @ [p]) ps)"

definition valid_schedule :: "StatusNode list \<Rightarrow> nat list \<Rightarrow> bool" where
  "valid_schedule pl ord = (schedule_ok pl [] ord \<and> length ord = length pl)"

section \<open>Example descriptions\<close>

text \<open>
  \<open>ex_partial\<close>: a leaf and a derived node with a dependency that the description does not
  contain. \<open>ex_default_rule\<close>: a leaf, a derived node without a rule name, and a derived node
  with a rule name that the factory does not know. \<open>ex_leaf_dangling\<close>: an imported node that
  lists a dependency absent from the description. \<open>ex_other_type\<close>: a node whose type is neither
  "imported" nor "derived". \<open>ex_cycle\<close>: two derived nodes that depend on each other.
  \<open>ex_cycle_unknown_rule\<close>: a derived node with an unknown rule name, listed before a derived
  node that depends on itself.
  \<open>ex_simple\<close>: the description of the integration tests, two leaves under a Worst node, with
  the derived node listed first.
\<close>

definition ex_partial :: "(string \<times> NodeSpec) list" where
  "ex_partial =
     [(''leaf1'', \<lparr>spec_type = Some ''imported'', spec_rule = None, spec_params = None,
                   spec_dependencies = None\<rparr>),
      (''derived1'', \<lparr>spec_type = Some ''derived'', spec_rule = Some ''worst_status'',
                      spec_params = None, spec_dependencies = Some [''leaf1'', ''ghost'']\<rparr>)]"

definition ex_default_rule :: "(string \<times> NodeSpec) list" where
  "ex_default_rule =
     [(''a'', \<lparr>spec_type = None, spec_rule = None, spec_params = None, spec_dependencies = None\<rparr>),
      (''d1'', \<lparr>spec_type = Some ''derived'', spec_rule = None, spec_params = None,
                spec_dependencies = Some [''a'']\<rparr>),
      (''d2'', \<lparr>spec_type = Some ''derived'', spec_rule = Some ''bogus'', spec_params = None,
                spec_dependencies = None\<rparr>)]"

definition ex_leaf_dangling :: "(string \<times> NodeSpec) list" where
  "ex_leaf_dangling =
     [(''a'', \<lparr>spec_type = Some ''imported'', spec_rule = None, spec_params = None,
               spec_dependencies = Some [''ghost'']\<rparr>)]"

definition ex_other_type :: "(string \<times> NodeSpec) list" where
  "ex_other_type =
     [(''a'', \<lparr>spec_type = Some ''group'', spec_rule = None, spec_params = None,
               spec_dependencies = None\<rparr>)]"

definition ex_cycle :: "(string \<times> NodeSpec) list" where
  "ex_cycle =
     [(''a'', \<lparr>spec_type = Some ''derived'', spec_rule = None, spec_params = None,
               spec_dependencies = Some [''b'']\<rparr>),
      (''b'', \<lparr>spec_type = Some ''derived'', spec_rule = None, spec_params = None,
               spec_dependencies = Some [''a'']\<rparr>)]"

definition ex_cycle_unknown_rule :: "(string \<times> NodeSpec) list" where
  "ex_cycle_unknown_rule =
     [(''x'', \<lparr>spec_type = Some ''derived'', spec_rule = Some ''bogus'', spec_params = None,
               spec_dependencies = None\<rparr>),
      (''a'', \<lparr>spec_type = Some ''derived'', spec_rule = None, spec_params = None,
               spec_dependencies = Some [''a'']\<rparr>)]"

definition ex_simple :: "(string \<times> NodeSpec) list" where
  "ex_simple =
     [(''derived1'', \<lparr>spec_type = Some ''derived'', spec_rule = Some ''worst_status'',
                      spec_params = None, spec_dependencies = Some [''leaf1'', ''leaf2'']\<rparr>),
      (''leaf1'', \<lparr>spec_type = Some ''imported'', spec_rule = None, spec_params = None,
                   spec_dependencies = None\<rparr>),
      (''leaf2'', \<lparr>spec_type = Some ''imported'', spec_rule = None, spec_params = None,
                   spec_dependencies = None\<rparr>)]"

section \<open>Properties of the status conversions and of the rules\<close>

lemma worst_fold_rank:
  "status_rank (fold (\<lambda>status worst. if status_rank status > status_rank worst then status else worst) xs w)
     = Max (insert (status_rank w) (status_rank ` set xs))"
proof (induction xs arbitrary: w)
  case Nil
  then show ?case by simp
next
  case (Cons x xs)
  have "Max (insert (status_rank (if status_rank w < status_rank x then x else w)) (status_rank ` set xs))
      = Max (insert (status_rank w) (insert (status_rank x) (status_rank ` set xs)))"
    by (cases "status_rank ` set xs = {}") (auto simp: max_def)
  with Cons show ?case by (simp add: insert_commute)
qed

lemma worst_fold_mem:
  "fold (\<lambda>status worst. if status_rank status > status_rank worst then status else worst) xs w
     \<in> insert w (set xs)"
  by (induction xs arbitrary: w) (auto split: if_splits)

lemma threshold_counts_fold:
  "fold (\<lambda>status (red_count, yellow_count).
             if status = Red then (red_count + 1, yellow_count)
             else if status = Yellow then (red_count, yellow_count + 1)
             else (red_count, yellow_count)) xs (r, y) = (r + int (count_list xs Red), y + int (count_list xs Yellow))"
  by (induction xs arbitrary: r y) auto

lemma threshold_counts_eq:
  "threshold_counts xs = (int (count_list xs Red), int (count_list xs Yellow))"
  by (simp add: threshold_counts_def threshold_counts_fold)

lemma majority_counts_fold:
  "fold (\<lambda>status counts.
             if status \<noteq> Unknown
             then counts[status_rank status := counts ! status_rank status + 1]
             else counts) xs [g, y, r] = [g + int (count_list xs Green), y + int (count_list xs Yellow), r + int (count_list xs Red)]"
proof (induction xs arbitrary: g y r)
  case Nil then show ?case by simp
next
  case (Cons x xs)
  then show ?case by (cases x) simp_all
qed

lemma majority_counts_eq:
  "majority_counts xs = [int (count_list xs Green), int (count_list xs Yellow), int (count_list xs Red)]"
  by (simp add: majority_counts_def majority_counts_fold)

lemma majority_scan_eq:
  "0 \<le> g \<Longrightarrow> 0 \<le> y \<Longrightarrow> 0 \<le> r \<Longrightarrow> snd (majority_scan [g, y, r]) =
     (if y \<le> g \<and> r \<le> g then Green else if r \<le> y then Yellow else Red)"
  by (simp add: majority_scan_def status_of_rank_def)

lemma majority_compute_eq:
  "MajorityVoteRule_compute xs =
     (if xs = [] then Unknown
      else if count_list xs Yellow \<le> count_list xs Green \<and> count_list xs Red \<le> count_list xs Green then Green
      else if count_list xs Red \<le> count_list xs Yellow then Yellow else Red)"
  by (simp add: MajorityVoteRule_compute_def majority_counts_eq majority_scan_eq)

section \<open>Claims about the status conversions and the rules\<close>

text \<open>
  C5. Status strings round-trip: for every status \<open>s\<close> among Green, Yellow, Red, parsing the
  formatted status gives \<open>s\<close> back; Unknown is formatted as "unknown"; every string other
  than "green", "yellow", "red" (compared case-sensitively) parses to Unknown. Parsing is a
  total function, so it never fails.
\<close>

theorem C5_status_string_roundtrip:
  "(s \<in> {Green, Yellow, Red} \<longrightarrow> string_to_status (status_to_string s) = s)
   \<and> status_to_string Unknown = ''unknown''
   \<and> (str \<notin> {''green'', ''yellow'', ''red''} \<longrightarrow> string_to_status str = Unknown)"
  by (auto simp: string_to_status_def)

theorem C5_status_string_roundtrip_witness:
  "Yellow \<in> {Green, Yellow, Red} \<and> string_to_status (status_to_string Yellow) = Yellow
   \<and> ''Green'' \<notin> {''green'', ''yellow'', ''red''} \<and> string_to_status ''Green'' = Unknown"
  using C5_status_string_roundtrip [of Yellow "''Green''"] by simp

text \<open>
  C2, as stated: the Worst rule returns, for every non-empty input, the maximum element under
  the severity order Green < Yellow < Red. This fails when an input is Unknown: the
  comparison is on the underlying values, where Unknown is 3, so for [Red, Unknown] the rule
  returns Unknown, which the severity order does not rank above Red.
\<close>

theorem C2_worst_rule_counterexample:
  "WorstStatusRule_compute [Red, Unknown] = Unknown
   \<and> \<not> is_severity_max [Red, Unknown] (WorstStatusRule_compute [Red, Unknown])"
  by (simp add: is_severity_max_def WorstStatusRule_compute_def)

text \<open>
  C2, amended. For the empty sequence the Worst rule returns Unknown. For every non-empty
  sequence it returns an element of the sequence whose underlying value is the greatest,
  in the order Green < Yellow < Red < Unknown of the enumeration (so an Unknown input makes
  the result Unknown). For every non-empty sequence without Unknown this is the maximum
  element under the severity order Green < Yellow < Red.
\<close>

theorem C2_worst_rule_amended:
  "WorstStatusRule_compute [] = Unknown
   \<and> (xs \<noteq> [] \<longrightarrow> WorstStatusRule_compute xs \<in> set xs
        \<and> (\<forall>x \<in> set xs. status_rank x \<le> status_rank (WorstStatusRule_compute xs)))
   \<and> (xs \<noteq> [] \<and> Unknown \<notin> set xs \<longrightarrow> is_severity_max xs (WorstStatusRule_compute xs))"
proof -
  let ?f = "\<lambda>status worst. if status_rank status > status_rank worst then status else worst"
  have e: "WorstStatusRule_compute [] = Unknown" by (simp add: WorstStatusRule_compute_def)
  have m: "WorstStatusRule_compute xs \<in> set xs
        \<and> (\<forall>x \<in> set xs. status_rank x \<le> status_rank (WorstStatusRule_compute xs))" if ne: "xs \<noteq> []"
  proof -
    have w: "WorstStatusRule_compute xs = fold ?f xs Green" using ne by (simp add: WorstStatusRule_compute_def)
    have r: "status_rank (fold ?f xs Green) = Max (insert 0 (status_rank ` set xs))"
      using worst_fold_rank[of xs Green] by simp
    have ub: "\<forall>x \<in> set xs. status_rank x \<le> status_rank (fold ?f xs Green)"
      unfolding r by (simp add: Max_ge)
    have "fold ?f xs Green \<in> set xs"
    proof (cases "fold ?f xs Green = Green")
      case True
      obtain x where x: "x \<in> set xs" using ne by (cases xs) auto
      with ub True have "status_rank x = 0" by auto
      then have "x = Green" by (cases x) simp_all
      with x True show ?thesis by simp
    next
      case False
      with worst_fold_mem[of xs Green] show ?thesis by auto
    qed
    with ub w show ?thesis by simp
  qed
  have s: "is_severity_max xs (WorstStatusRule_compute xs)" if ne: "xs \<noteq> []" and nu: "Unknown \<notin> set xs"
  proof -
    from m[OF ne] have a: "WorstStatusRule_compute xs \<in> set xs"
      and b: "\<forall>x \<in> set xs. status_rank x \<le> status_rank (WorstStatusRule_compute xs)" by auto
    have "x = WorstStatusRule_compute xs \<or> severity_less x (WorstStatusRule_compute xs)" if "x \<in> set xs" for x
    proof -
      from that b have le: "status_rank x \<le> status_rank (WorstStatusRule_compute xs)" by auto
      from that nu have "x \<noteq> Unknown" by auto
      moreover from a nu have "WorstStatusRule_compute xs \<noteq> Unknown" by auto
      ultimately show ?thesis using le
        by (cases x; cases "WorstStatusRule_compute xs") simp_all
    qed
    with a show ?thesis by (simp add: is_severity_max_def list_all_iff)
  qed
  from e m s show ?thesis by blast
qed

theorem C2_worst_rule_amended_witness:
  "[Green, Red, Yellow] \<noteq> [] \<and> Unknown \<notin> set [Green, Red, Yellow]
   \<and> WorstStatusRule_compute [Green, Red, Yellow] = Red
   \<and> is_severity_max [Green, Red, Yellow] (WorstStatusRule_compute [Green, Red, Yellow])"
  using C2_worst_rule_amended [of "[Green, Red, Yellow]"]
  by (simp add: WorstStatusRule_compute_def)

text \<open>
  C3. The Threshold rule returns Unknown for the empty sequence; otherwise it counts the Red
  and the Yellow inputs (an Unknown input changes neither counter) and decides in this order:
  Red when the red count reaches \<open>red_threshold\<close>, else Red when the yellow count reaches
  \<open>yellow_to_red\<close>, else Yellow when the yellow count reaches \<open>yellow_to_yellow\<close>, else Green.
  This holds for all parameters, the non-negative ones among them. With the parameters 2, 1, 2
  the four sequences of the specification give Green, Red, Yellow, Red.
\<close>

theorem C3_threshold_rule:
  "ThresholdRollupRule_compute red_threshold yellow_to_yellow yellow_to_red xs =
    (if xs = [] then Unknown
     else if int (count_list xs Red) \<ge> red_threshold then Red
     else if int (count_list xs Yellow) \<ge> yellow_to_red then Red
     else if int (count_list xs Yellow) \<ge> yellow_to_yellow then Yellow
     else Green)
   \<and> threshold_counts (Unknown # xs) = threshold_counts xs
   \<and> ThresholdRollupRule_compute 2 1 2 [Red, Green, Green] = Green
   \<and> ThresholdRollupRule_compute 2 1 2 [Red, Red, Green] = Red
   \<and> ThresholdRollupRule_compute 2 1 2 [Yellow, Green, Green] = Yellow
   \<and> ThresholdRollupRule_compute 2 1 2 [Yellow, Yellow, Green] = Red"
  by (simp add: ThresholdRollupRule_compute_def threshold_counts_eq)

theorem C3_threshold_rule_witness:
  "ThresholdRollupRule_compute 1 1 2 [Unknown, Yellow, Unknown] = Yellow"
  using C3_threshold_rule [of 1 1 2 "[Unknown, Yellow, Unknown]"] by simp

text \<open>
  C4. The MajorityVote rule returns Unknown for the empty sequence. For a non-empty sequence
  it tallies the Green, Yellow and Red inputs (Unknown inputs are in no tally) and returns
  one of Green, Yellow, Red whose tally is the greatest; every status scanned before the
  result (in the order Green, Yellow, Red) has a strictly smaller tally, so the first status
  reaching the maximum wins; a status whose tally is strictly the highest is the result.
  The four sequences of the specification give Green, Yellow, Red, Green.
\<close>

theorem C4_majority_vote_rule:
  "MajorityVoteRule_compute [] = Unknown
   \<and> (xs \<noteq> [] \<longrightarrow>
       MajorityVoteRule_compute xs \<in> {Green, Yellow, Red}
     \<and> (\<forall>s \<in> {Green, Yellow, Red}. count_list xs s \<le> count_list xs (MajorityVoteRule_compute xs))
     \<and> (\<forall>s \<in> {Green, Yellow, Red}. status_rank s < status_rank (MajorityVoteRule_compute xs)
            \<longrightarrow> count_list xs s < count_list xs (MajorityVoteRule_compute xs))
     \<and> (\<forall>s \<in> {Green, Yellow, Red}.
           (\<forall>s' \<in> {Green, Yellow, Red}. s' \<noteq> s \<longrightarrow> count_list xs s' < count_list xs s)
            \<longrightarrow> MajorityVoteRule_compute xs = s))
   \<and> MajorityVoteRule_compute [Green, Green, Yellow] = Green
   \<and> MajorityVoteRule_compute [Yellow, Yellow, Green] = Yellow
   \<and> MajorityVoteRule_compute [Red, Red, Green] = Red
   \<and> MajorityVoteRule_compute [Green, Unknown, Green] = Green"
  by (auto simp add: majority_compute_eq)

theorem C4_majority_vote_rule_witness:
  "[Red, Yellow, Unknown, Yellow] \<noteq> []
   \<and> MajorityVoteRule_compute [Red, Yellow, Unknown, Yellow] = Yellow
   \<and> count_list [Red, Yellow, Unknown, Yellow] Red
       < count_list [Red, Yellow, Unknown, Yellow] (MajorityVoteRule_compute [Red, Yellow, Unknown, Yellow])"
  using C4_majority_vote_rule [of "[Red, Yellow, Unknown, Yellow]"]
  by (simp add: majority_compute_eq)

text \<open>
  C9. On a non-empty sequence that consists of Unknown values only, the MajorityVote rule
  returns Green: every tally is zero, no tally exceeds the initial maximum zero, and the
  initial result Green is kept.
\<close>

theorem C9_majority_vote_all_unknown:
  "xs \<noteq> [] \<Longrightarrow> set xs \<subseteq> {Unknown} \<Longrightarrow> MajorityVoteRule_compute xs = Green"
proof -
  assume a: "xs \<noteq> []" "set xs \<subseteq> {Unknown}"
  then have "count_list xs Green = 0" "count_list xs Yellow = 0" "count_list xs Red = 0"
    by (auto simp: count_list_0_iff)
  with a show ?thesis by (simp add: majority_compute_eq)
qed

theorem C9_majority_vote_all_unknown_witness:
  "[Unknown, Unknown] \<noteq> [] \<and> set [Unknown, Unknown] \<subseteq> {Unknown}
   \<and> MajorityVoteRule_compute [Unknown, Unknown] = Green"
  using C9_majority_vote_all_unknown [of "[Unknown, Unknown]"] by simp

section \<open>The build: invariant and outcomes\<close>

lemma scan_pass_Cons:
  "scan_pass ((n, c) # rest) C p st =
     (if ready n c C
      then (case create_derived n c (dep_names_of c) st of
              (Inl e, st') \<Rightarrow> (Inl e, st')
            | (Inr _, st') \<Rightarrow> scan_pass rest (insert n C) True st')
      else scan_pass rest C p st)"
  by (simp add: ready_def)

declare scan_pass.simps(2) [simp del]

lemma create_derived_Inr:
  assumes "create_derived n c ds st = (Inr u, st')"
  shows "\<exists>r. RuleFactory_create (rule_name_of c) (params_of c) = Inr r
     \<and> st' = st\<lparr>impl_pipeline := impl_pipeline st @
                 [\<lparr>sn_name = n, sn_status = Unknown, sn_rule = Some r,
                   sn_dependencies = List.map_filter (map_of (impl_nodes st)) ds\<rparr>],
               impl_nodes := AList.update n (length (impl_pipeline st)) (impl_nodes st)\<rparr>"
  using assms
  by (auto simp: create_derived_def Let_def new_StatusNode_def split: sum.splits)

lemma create_derived_Inl:
  assumes "create_derived n c ds st = (Inl e, st')"
  shows "RuleFactory_create (rule_name_of c) (params_of c) = Inl e
     \<and> st' = st\<lparr>impl_pipeline := impl_pipeline st @ [new_StatusNode\<lparr>sn_name := n\<rparr>]\<rparr>"
  using assms
  by (auto simp: create_derived_def Let_def split: sum.splits)

lemma scan_pass_inv:
  assumes "scan_pass l C p st = (r, st')"
    and "P C st"
    and step: "\<forall>n c C st st'. P C st \<longrightarrow> (n, c) \<in> set l \<longrightarrow> ready n c C
          \<longrightarrow> create_derived n c (dep_names_of c) st = (Inr (), st') \<longrightarrow> P (insert n C) st'"
  shows "case r of
           Inr (C', p') \<Rightarrow> P C' st'
         | Inl e \<Rightarrow> (\<exists>n c C0 st0. P C0 st0 \<and> (n, c) \<in> set l \<and> ready n c C0
                       \<and> create_derived n c (dep_names_of c) st0 = (Inl e, st'))"
  using assms
proof (induction l arbitrary: C p st)
  case Nil
  then show ?case by auto
next
  case (Cons a l)
  obtain n c where a: "a = (n, c)" by (cases a)
  have step': "\<forall>n c C st st'. P C st \<longrightarrow> (n, c) \<in> set l \<longrightarrow> ready n c C
          \<longrightarrow> create_derived n c (dep_names_of c) st = (Inr (), st') \<longrightarrow> P (insert n C) st'"
    using Cons.prems(3) by simp
  show ?case
  proof (cases "ready n c C")
    case False
    with Cons.prems(1) a have "scan_pass l C p st = (r, st')" by (simp add: scan_pass_Cons)
    from Cons.IH[OF this Cons.prems(2) step']
    show ?thesis by (auto split: sum.splits)
  next
    case True
    obtain x st1 where cd: "create_derived n c (dep_names_of c) st = (x, st1)"
      by (cases "create_derived n c (dep_names_of c) st")
    show ?thesis
    proof (cases x)
      case (Inl e)
      with Cons.prems(1) a True cd have "r = Inl e" "st' = st1" by (auto simp: scan_pass_Cons)
      with Cons.prems(2) True cd Inl a show ?thesis by auto
    next
      case (Inr u)
      with Cons.prems(1) a True cd have sp: "scan_pass l (insert n C) True st1 = (r, st')"
        by (auto simp: scan_pass_Cons)
      from Cons.prems(2,3) True cd Inr a have "P (insert n C) st1" by auto
      from Cons.IH[OF sp this step']
      show ?thesis by (auto split: sum.splits)
    qed
  qed
qed

lemma scan_pass_no_progress:
  assumes "scan_pass l C p st = (Inr (C', False), st')"
  shows "C' = C \<and> st' = st \<and> \<not> p \<and> (\<forall>(n, c) \<in> set l. \<not> ready n c C)"
  using assms
proof (induction l arbitrary: C p st)
  case Nil
  then show ?case by simp
next
  case (Cons a l)
  obtain n c where a: "a = (n, c)" by (cases a)
  show ?case
  proof (cases "ready n c C")
    case False
    with Cons.prems a have "scan_pass l C p st = (Inr (C', False), st')" by (simp add: scan_pass_Cons)
    from Cons.IH[OF this] False a show ?thesis by auto
  next
    case True
    with Cons.prems a obtain st1 where "scan_pass l (insert n C) True st1 = (Inr (C', False), st')"
      by (auto simp: scan_pass_Cons split: prod.splits sum.splits)
    from Cons.IH[OF this] show ?thesis by simp
  qed
qed


lemma derive_loop_inv:
  assumes "derive_loop cfg C st = (r, st')"
    and "P C st"
    and step: "\<forall>n c C st st'. P C st \<longrightarrow> (n, c) \<in> set cfg \<longrightarrow> ready n c C
          \<longrightarrow> create_derived n c (dep_names_of c) st = (Inr (), st') \<longrightarrow> P (insert n C) st'"
  shows "case r of
           Inr C' \<Rightarrow> P C' st' \<and> (\<forall>(n, c) \<in> set cfg. \<not> ready n c C')
         | Inl e \<Rightarrow> (\<exists>n c C0 st0. P C0 st0 \<and> (n, c) \<in> set cfg \<and> ready n c C0
                       \<and> create_derived n c (dep_names_of c) st0 = (Inl e, st'))"
  using assms
proof (induction cfg C st rule: derive_loop.induct)
  case (1 cfg C st)
  obtain x st1 where sp: "scan_pass cfg C False st = (x, st1)"
    by (cases "scan_pass cfg C False st")
  have inv: "case x of
           Inr (C', p') \<Rightarrow> P C' st1
         | Inl e \<Rightarrow> (\<exists>n c C0 st0. P C0 st0 \<and> (n, c) \<in> set cfg \<and> ready n c C0
                       \<and> create_derived n c (dep_names_of c) st0 = (Inl e, st1))"
    using sp "1.prems"(2,3) by (rule scan_pass_inv)
  show ?case
  proof (cases x)
    case (Inl e)
    with sp "1.prems"(1) have "r = Inl e" "st' = st1" by (auto simp: derive_loop.simps[of cfg C st])
    with inv Inl show ?thesis by auto
  next
    case (Inr y)
    obtain C1 p1 where y: "y = (C1, p1)" by (cases y)
    from inv Inr y have P1: "P C1 st1" by auto
    show ?thesis
    proof (cases p1)
      case True
      with sp Inr y "1.prems"(1) have "derive_loop cfg C1 st1 = (r, st')"
        by (auto simp: derive_loop.simps[of cfg C st])
      from "1.IH"[OF sp[symmetric] Inr y[symmetric] True this P1 "1.prems"(3)] show ?thesis .
    next
      case False
      with sp Inr y "1.prems"(1) have "r = Inr C1" "st' = st1"
        by (auto simp: derive_loop.simps[of cfg C st])
      with scan_pass_no_progress[of cfg C False st C1 st1] sp Inr y False P1
      show ?thesis by auto
    qed
  qed
qed

lemma map_of_update_alist: "map_of (AList.update k v al) = (map_of al)(k \<mapsto> v)"
  by (rule update_conv')

lemma keys_update_alist: "fst ` set (AList.update k v al) = insert k (fst ` set al)"
  by (simp add: dom_update)

lemma keys_map_of: "(n \<in> fst ` set al) = (\<exists>p. map_of al n = Some p)"
  by (metis map_of_eq_None_iff not_Some_eq)

lemma node_ok_extend:
  assumes ok: "node_ok st m c p" and nm: "n \<notin> fst ` set (impl_nodes st)"
    and st': "impl_nodes st' = AList.update n (length (impl_pipeline st)) (impl_nodes st)"
             "impl_pipeline st' = impl_pipeline st @ [x]"
  shows "node_ok st' m c p"
proof -
  from ok have p: "p < length (impl_pipeline st)" by (simp add: node_ok_def)
  then have nth: "impl_pipeline st' ! p = impl_pipeline st ! p" by (simp add: st' nth_append)
  have same: "map_of (impl_nodes st') d = map_of (impl_nodes st) d" if "map_of (impl_nodes st) d = Some q" for d q
  proof -
    from that have "d \<in> fst ` set (impl_nodes st)" by (auto simp: keys_map_of)
    with nm have "d \<noteq> n" by auto
    then show ?thesis by (simp add: st' map_of_update_alist)
  qed
  show ?thesis
  proof (cases "type_of c = ''imported''")
    case True
    with ok p nth show ?thesis by (auto simp: node_ok_def st')
  next
    case False
    with ok obtain r where d: "type_of c = ''derived''"
      and r: "RuleFactory_create (rule_name_of c) (params_of c) = Inr r"
      and n: "impl_pipeline st ! p = derived_node m r (map (the \<circ> map_of (impl_nodes st)) (dep_names_of c))"
      and q: "\<forall>d \<in> set (dep_names_of c). \<exists>q. map_of (impl_nodes st) d = Some q \<and> q < p"
      by (auto simp: node_ok_def)
    have q': "\<forall>d \<in> set (dep_names_of c). \<exists>q. map_of (impl_nodes st') d = Some q \<and> q < p"
    proof
      fix d assume "d \<in> set (dep_names_of c)"
      with q obtain q where "map_of (impl_nodes st) d = Some q" "q < p" by blast
      with same[OF this(1)] show "\<exists>q. map_of (impl_nodes st') d = Some q \<and> q < p" by simp
    qed
    have deps_eq: "map (the \<circ> map_of (impl_nodes st')) (dep_names_of c)
        = map (the \<circ> map_of (impl_nodes st)) (dep_names_of c)"
    proof (rule map_cong[OF refl])
      fix d assume "d \<in> set (dep_names_of c)"
      with q obtain q where "map_of (impl_nodes st) d = Some q" by blast
      from same[OF this] show "(the \<circ> map_of (impl_nodes st')) d = (the \<circ> map_of (impl_nodes st)) d"
        by simp
    qed
    from p have "p < length (impl_pipeline st')" by (simp add: st'(2))
    with d r n q' nth show ?thesis unfolding node_ok_def deps_eq by simp
  qed
qed

lemma deps_earlier_snoc:
  assumes "deps_earlier pl" and "\<forall>d \<in> set (sn_dependencies x). d < length pl"
  shows "deps_earlier (pl @ [x])"
  using assms by (auto simp: deps_earlier_def nth_append less_Suc_eq)

lemma build_inv_leaf:
  assumes inv: "build_inv cfg st" and dist: "distinct (map fst cfg)"
    and nc: "(n, c) \<in> set cfg" and ty: "type_of c = ''imported''"
    and nm: "n \<notin> fst ` set (impl_nodes st)"
  shows "build_inv cfg (st\<lparr>impl_pipeline := impl_pipeline st @ [new_StatusNode\<lparr>sn_name := n\<rparr>],
              impl_leaf_nodes := impl_leaf_nodes st @ [length (impl_pipeline st)],
              impl_nodes := AList.update n (length (impl_pipeline st)) (impl_nodes st)\<rparr>)"
    (is "build_inv cfg ?st'")
proof -
  have st': "impl_nodes ?st' = AList.update n (length (impl_pipeline st)) (impl_nodes st)"
    "impl_pipeline ?st' = impl_pipeline st @ [leaf_node n]"
    by (simp_all add: new_StatusNode_def leaf_node_def)
  from nc have nk: "n \<in> fst ` set cfg" by force
  have a: "fst ` set (impl_nodes ?st') \<subseteq> fst ` set cfg"
    using inv nk by (simp add: build_inv_def keys_update_alist)
  have b: "node_ok ?st' m c' p" if m: "(m, c') \<in> set cfg" "map_of (impl_nodes ?st') m = Some p" for m c' p
  proof (cases "m = n")
    case True
    with m nc dist have "c' = c" by (meson eq_key_imp_eq_value)
    moreover from True m have "p = length (impl_pipeline st)" by (simp add: map_of_update_alist)
    ultimately show ?thesis using ty True by (simp add: node_ok_def new_StatusNode_def leaf_node_def)
  next
    case False
    with m have "map_of (impl_nodes st) m = Some p" by (simp add: map_of_update_alist)
    with inv m have "node_ok st m c' p" by (auto simp: build_inv_def)
    from node_ok_extend[OF this nm st'] show ?thesis .
  qed
  have c: "deps_earlier (impl_pipeline ?st')"
    using inv by (simp add: st'(2) build_inv_def deps_earlier_snoc leaf_node_def)
  from a b c show ?thesis unfolding build_inv_def by blast
qed

lemma build_inv_derived:
  assumes inv: "build_inv cfg st" and dist: "distinct (map fst cfg)"
    and nc: "(n, c) \<in> set cfg" and rdy: "ready n c (fst ` set (impl_nodes st))"
    and cd: "create_derived n c (dep_names_of c) st = (Inr (), st')"
  shows "build_inv cfg st' \<and> fst ` set (impl_nodes st') = insert n (fst ` set (impl_nodes st))"
proof -
  from create_derived_Inr[OF cd] obtain r where
    r: "RuleFactory_create (rule_name_of c) (params_of c) = Inr r" and
    st'eq: "st' = st\<lparr>impl_pipeline := impl_pipeline st @
                 [\<lparr>sn_name = n, sn_status = Unknown, sn_rule = Some r,
                   sn_dependencies = List.map_filter (map_of (impl_nodes st)) (dep_names_of c)\<rparr>],
               impl_nodes := AList.update n (length (impl_pipeline st)) (impl_nodes st)\<rparr>"
    by blast
  let ?ds = "List.map_filter (map_of (impl_nodes st)) (dep_names_of c)"
  have st': "impl_nodes st' = AList.update n (length (impl_pipeline st)) (impl_nodes st)"
    "impl_pipeline st' = impl_pipeline st @ [derived_node n r ?ds]"
    by (simp_all add: st'eq derived_node_def)
  from rdy have nm: "n \<notin> fst ` set (impl_nodes st)" and ty: "type_of c = ''derived''"
    and deps: "\<forall>d \<in> set (dep_names_of c). d \<in> fst ` set (impl_nodes st)"
    by (auto simp: ready_def list_all_iff)
  have depq: "\<exists>q. map_of (impl_nodes st) d = Some q \<and> q < length (impl_pipeline st)
        \<and> map_of (impl_nodes st') d = Some q"
    if "d \<in> set (dep_names_of c)" for d
  proof -
    from that deps have dk: "d \<in> fst ` set (impl_nodes st)" by auto
    then obtain q where q: "map_of (impl_nodes st) d = Some q" by (auto simp: keys_map_of)
    from dk inv obtain cd where "(d, cd) \<in> set cfg" by (auto simp: build_inv_def)
    with inv q have "node_ok st d cd q" by (auto simp: build_inv_def)
    then have "q < length (impl_pipeline st)" by (simp add: node_ok_def)
    moreover from dk nm have "d \<noteq> n" by auto
    ultimately show ?thesis using q by (simp add: st' map_of_update_alist)
  qed
  have ds_eq: "?ds = map (the \<circ> map_of (impl_nodes st')) (dep_names_of c)"
  proof -
    have "List.map_filter (map_of (impl_nodes st)) xs = map (the \<circ> map_of (impl_nodes st')) xs"
      if "set xs \<subseteq> set (dep_names_of c)" for xs
      using that
    proof (induction xs)
      case Nil
      then show ?case by (simp add: List.map_filter_simps)
    next
      case (Cons x xs)
      then have "x \<in> set (dep_names_of c)" by simp
      from depq[OF this] Cons show ?case by (auto simp: List.map_filter_simps)
    qed
    then show ?thesis by simp
  qed
  from nc have nk: "n \<in> fst ` set cfg" by force
  have a: "fst ` set (impl_nodes st') \<subseteq> fst ` set cfg"
    using inv nk by (simp add: build_inv_def st' keys_update_alist)
  have b: "node_ok st' m c' p" if m: "(m, c') \<in> set cfg" "map_of (impl_nodes st') m = Some p" for m c' p
  proof (cases "m = n")
    case True
    with m nc dist have c': "c' = c" by (meson eq_key_imp_eq_value)
    from True m have p: "p = length (impl_pipeline st)" by (simp add: st' map_of_update_alist)
    have "\<forall>d \<in> set (dep_names_of c). \<exists>q. map_of (impl_nodes st') d = Some q \<and> q < p"
    proof
      fix d assume "d \<in> set (dep_names_of c)"
      from depq[OF this] p show "\<exists>q. map_of (impl_nodes st') d = Some q \<and> q < p" by auto
    qed
    with c' p True ty r ds_eq show ?thesis
      by (simp add: node_ok_def st')
  next
    case False
    with m have "map_of (impl_nodes st) m = Some p" by (simp add: st' map_of_update_alist)
    with inv m have "node_ok st m c' p" by (auto simp: build_inv_def)
    from node_ok_extend[OF this nm st'] show ?thesis .
  qed
  have "\<forall>q \<in> set ?ds. q < length (impl_pipeline st)"
  proof
    fix q assume "q \<in> set ?ds"
    then obtain d where d: "d \<in> set (dep_names_of c)" "q = the (map_of (impl_nodes st') d)"
      by (auto simp: ds_eq)
    from depq[OF d(1)] d(2) show "q < length (impl_pipeline st)" by auto
  qed
  then have c: "deps_earlier (impl_pipeline st')"
    using inv by (simp add: st'(2) build_inv_def deps_earlier_snoc derived_node_def)
  have "fst ` set (impl_nodes st') = insert n (fst ` set (impl_nodes st))"
    by (simp add: st' keys_update_alist)
  with a b c show ?thesis unfolding build_inv_def by blast
qed

lemma build_inv_init: "build_inv cfg Impl_init"
  by (simp add: build_inv_def Impl_init_def deps_earlier_def)

lemma create_leaves_inv:
  assumes "build_inv cfg st" and "distinct (map fst cfg)" and "set l \<subseteq> set cfg"
    and "distinct (map fst l)" and "fst ` set l \<inter> fst ` set (impl_nodes st) = {}"
  shows "build_inv cfg (create_leaves l st)
     \<and> fst ` set (impl_nodes (create_leaves l st))
         = fst ` set (impl_nodes st) \<union> {n. \<exists>c. (n, c) \<in> set l \<and> type_of c = ''imported''}"
  using assms
proof (induction l arbitrary: st)
  case Nil
  then show ?case by simp
next
  case (Cons a l)
  obtain n c where a: "a = (n, c)" by (cases a)
  from Cons.prems a have nc: "(n, c) \<in> set cfg" and sub: "set l \<subseteq> set cfg"
    and dl: "distinct (map fst l)" and nl: "n \<notin> fst ` set l"
    and nm: "n \<notin> fst ` set (impl_nodes st)"
    and disj: "fst ` set l \<inter> fst ` set (impl_nodes st) = {}"
    by auto
  show ?case
  proof (cases "type_of c = ''imported''")
    case False
    from Cons.IH[OF Cons.prems(1,2) sub dl disj] False a nl
    show ?thesis by auto
  next
    case True
    let ?st' = "st\<lparr>impl_pipeline := impl_pipeline st @ [new_StatusNode\<lparr>sn_name := n\<rparr>],
              impl_leaf_nodes := impl_leaf_nodes st @ [length (impl_pipeline st)],
              impl_nodes := AList.update n (length (impl_pipeline st)) (impl_nodes st)\<rparr>"
    have inv': "build_inv cfg ?st'"
      by (rule build_inv_leaf[OF Cons.prems(1,2) nc True nm])
    have keys': "fst ` set (impl_nodes ?st') = insert n (fst ` set (impl_nodes st))"
      by (simp add: keys_update_alist)
    with disj nl have disj': "fst ` set l \<inter> fst ` set (impl_nodes ?st') = {}" by auto
    from Cons.IH[OF inv' Cons.prems(2) sub dl disj'] keys' True a
    show ?thesis by auto
  qed
qed

lemma build_inv_orphan:
  assumes "build_inv cfg st"
  shows "build_inv cfg (st\<lparr>impl_pipeline := impl_pipeline st @ [new_StatusNode\<lparr>sn_name := n\<rparr>]\<rparr>)"
proof -
  have "deps_earlier (impl_pipeline st @ [new_StatusNode\<lparr>sn_name := n\<rparr>])"
    using assms by (simp add: build_inv_def deps_earlier_snoc new_StatusNode_def)
  moreover have "node_ok (st\<lparr>impl_pipeline := impl_pipeline st @ [x]\<rparr>) m c p" if "node_ok st m c p" for m c p x
    using that by (auto simp: node_ok_def nth_append)
  ultimately show ?thesis using assms by (auto simp: build_inv_def)
qed

lemma RuleFactory_create_Inl:
  "RuleFactory_create rn ps = Inl e \<Longrightarrow>
     e = UnknownRule rn \<and> rn \<notin> {''worst_status'', ''threshold_rollup'', ''majority_vote''}"
  by (auto simp: RuleFactory_create_def split: if_splits)

text \<open>What a build from the fresh engine leaves behind, by outcome.\<close>

lemma load_config_cases:
  assumes dist: "distinct (map fst cfg)" and lc: "load_config cfg Impl_init = (r, st')"
  shows "build_inv cfg st'
     \<and> (\<forall>n c. (n, c) \<in> set cfg \<and> type_of c = ''imported'' \<longrightarrow> n \<in> fst ` set (impl_nodes st'))
     \<and> (case r of
           Inr u \<Rightarrow> fst ` set (impl_nodes st') = fst ` set cfg
         | Inl e \<Rightarrow>
             (e = StructuralError \<and> fst ` set (impl_nodes st') \<noteq> fst ` set cfg
                \<and> (\<forall>(n, c) \<in> set cfg. \<not> ready n c (fst ` set (impl_nodes st'))))
             \<or> (\<exists>n c. (n, c) \<in> set cfg \<and> type_of c = ''derived''
                   \<and> rule_name_of c \<notin> {''worst_status'', ''threshold_rollup'', ''majority_vote''}
                   \<and> e = UnknownRule (rule_name_of c)))"
proof -
  let ?st1 = "create_leaves cfg Impl_init"
  let ?L = "{n. \<exists>c. (n, c) \<in> set cfg \<and> type_of c = ''imported''}"
  let ?P = "\<lambda>C st. C = fst ` set (impl_nodes st) \<and> build_inv cfg st \<and> ?L \<subseteq> C"
  have "build_inv cfg ?st1 \<and> fst ` set (impl_nodes ?st1) = fst ` set (impl_nodes Impl_init) \<union> ?L"
    by (rule create_leaves_inv[OF build_inv_init dist subset_refl dist]) (simp add: Impl_init_def)
  then have P1: "?P (fst ` set (impl_nodes ?st1)) ?st1" by (simp add: Impl_init_def)
  have step: "\<forall>n c C st st'. ?P C st \<longrightarrow> (n, c) \<in> set cfg \<longrightarrow> ready n c C
          \<longrightarrow> create_derived n c (dep_names_of c) st = (Inr (), st') \<longrightarrow> ?P (insert n C) st'"
    using build_inv_derived[OF _ dist] by blast
  obtain x st2 where dl: "derive_loop cfg (fst ` set (impl_nodes ?st1)) ?st1 = (x, st2)"
    by (cases "derive_loop cfg (fst ` set (impl_nodes ?st1)) ?st1")
  have inv: "case x of
           Inr C' \<Rightarrow> ?P C' st2 \<and> (\<forall>(n, c) \<in> set cfg. \<not> ready n c C')
         | Inl e \<Rightarrow> (\<exists>n c C0 st0. ?P C0 st0 \<and> (n, c) \<in> set cfg \<and> ready n c C0
                       \<and> create_derived n c (dep_names_of c) st0 = (Inl e, st2))"
    using dl P1 step by (rule derive_loop_inv)
  show ?thesis
  proof (cases x)
    case (Inl e)
    with lc dl have r: "r = Inl e" "st' = st2" by (auto simp: load_config_def Let_def)
    from inv Inl obtain n c C0 st0 where P0: "?P C0 st0" and nc: "(n, c) \<in> set cfg"
      and rdy: "ready n c C0" and cd: "create_derived n c (dep_names_of c) st0 = (Inl e, st2)"
      by auto
    from create_derived_Inl[OF cd] have rf: "RuleFactory_create (rule_name_of c) (params_of c) = Inl e"
      and st2: "st2 = st0\<lparr>impl_pipeline := impl_pipeline st0 @ [new_StatusNode\<lparr>sn_name := n\<rparr>]\<rparr>"
      by auto
    from P0 st2 have "build_inv cfg st2" by (simp add: build_inv_orphan)
    moreover from P0 st2 have "?L \<subseteq> fst ` set (impl_nodes st2)" by auto
    moreover from RuleFactory_create_Inl[OF rf] rdy nc
    have "\<exists>n c. (n, c) \<in> set cfg \<and> type_of c = ''derived''
                   \<and> rule_name_of c \<notin> {''worst_status'', ''threshold_rollup'', ''majority_vote''}
                   \<and> e = UnknownRule (rule_name_of c)"
      by (auto simp: ready_def)
    ultimately show ?thesis using r by auto
  next
    case (Inr C')
    with inv have P2: "?P C' st2" and nr: "\<forall>(n, c) \<in> set cfg. \<not> ready n c C'" by auto
    from P2 have sub: "C' \<subseteq> fst ` set cfg" by (auto simp: build_inv_def)
    from P2 have C': "C' = fst ` set (impl_nodes st2)" and bi: "build_inv cfg st2"
      and leaves: "\<forall>n c. (n, c) \<in> set cfg \<and> type_of c = ''imported'' \<longrightarrow> n \<in> fst ` set (impl_nodes st2)"
      by blast+
    have card: "card (fst ` set cfg) = length cfg"
      using dist by (metis distinct_card length_map set_map)
    have ceq: "(card C' = length cfg) = (C' = fst ` set cfg)"
      using sub card by (metis List.finite_set card_subset_eq finite_imageI)
    show ?thesis
    proof (cases "C' = fst ` set cfg")
      case True
      with lc dl Inr ceq have "r = Inr ()" "st' = st2" by (auto simp: load_config_def Let_def)
      with C' bi leaves True show ?thesis by simp
    next
      case False
      with lc dl Inr ceq have "r = Inl StructuralError" "st' = st2"
        by (auto simp: load_config_def Let_def)
      with C' bi leaves False nr show ?thesis by simp
    qed
  qed
qed

lemma derived_refs_iff:
  "(a, b) \<in> set (derived_refs cfg)
     \<longleftrightarrow> (\<exists>c. (a, c) \<in> set cfg \<and> type_of c = ''derived'' \<and> b \<in> set (dep_names_of c))"
  by (auto simp: derived_refs_def dependency_refs_def)

lemma has_cycle_iff: "has_cycle es \<longleftrightarrow> \<not> acyclic (set es)"
proof
  assume "has_cycle es"
  then show "\<not> acyclic (set es)" by (auto simp: has_cycle_def list_ex_iff acyclic_def)
next
  assume "\<not> acyclic (set es)"
  then obtain a where a: "(a, a) \<in> (set es)\<^sup>+" by (auto simp: acyclic_def)
  then have "a \<in> Domain ((set es)\<^sup>+)" by blast
  then have "a \<in> Domain (set es)" by simp
  then obtain b where "(a, b) \<in> set es" by blast
  with a show "has_cycle es" by (auto simp: has_cycle_def list_ex_iff)
qed

lemma has_dangling_iff:
  "has_dangling cfg es \<longleftrightarrow> (\<exists>a b. (a, b) \<in> set es \<and> b \<notin> fst ` set cfg)"
  by (auto simp: has_dangling_def list_ex_iff)

text \<open>A complete build orders the references by the pointers of their ends.\<close>

lemma complete_build_acyclic:
  assumes inv: "build_inv cfg st" and all: "fst ` set (impl_nodes st) = fst ` set cfg"
  shows "\<not> has_cycle (derived_refs cfg) \<and> \<not> has_dangling cfg (derived_refs cfg)"
proof -
  let ?f = "\<lambda>n. the (map_of (impl_nodes st) n)"
  have edge: "?f b < ?f a \<and> b \<in> fst ` set cfg" if "(a, b) \<in> set (derived_refs cfg)" for a b
  proof -
    from that obtain c where c: "(a, c) \<in> set cfg" "type_of c = ''derived''" "b \<in> set (dep_names_of c)"
      by (auto simp: derived_refs_iff)
    from c(1) all have "a \<in> fst ` set (impl_nodes st)" by force
    then obtain p where p: "map_of (impl_nodes st) a = Some p" by (auto simp: keys_map_of)
    with inv c(1) have "node_ok st a c p" by (auto simp: build_inv_def)
    with c(2,3) obtain q where q: "map_of (impl_nodes st) b = Some q" "q < p"
      by (auto simp: node_ok_def)
    from q(1) have "b \<in> fst ` set (impl_nodes st)" by (auto simp: keys_map_of)
    with p q all show ?thesis by simp
  qed
  have "acyclic (set (derived_refs cfg))"
    by (rule acyclicI_order[where f = ?f]) (use edge in blast)
  moreover have "\<not> has_dangling cfg (derived_refs cfg)"
    using edge by (auto simp: has_dangling_iff)
  ultimately show ?thesis by (simp add: has_cycle_iff)
qed

text \<open>A fixed point that misses a specification has a cycle or a dangling reference.\<close>

lemma stuck_build_cycle_or_dangling:
  assumes types: "\<forall>(n, c) \<in> set cfg. type_of c = ''imported'' \<or> type_of c = ''derived''"
    and leaves: "\<forall>n c. (n, c) \<in> set cfg \<and> type_of c = ''imported'' \<longrightarrow> n \<in> K"
    and stuck: "\<forall>(n, c) \<in> set cfg. \<not> ready n c K"
    and miss: "u \<in> fst ` set cfg" "u \<notin> K"
  shows "has_cycle (derived_refs cfg) \<or> has_dangling cfg (derived_refs cfg)"
proof (rule ccontr)
  assume neg: "\<not> (has_cycle (derived_refs cfg) \<or> has_dangling cfg (derived_refs cfg))"
  let ?E = "set (derived_refs cfg)"
  from neg have "acyclic ?E" by (simp add: has_cycle_iff)
  then have wf: "wf (?E\<inverse>)" by (simp add: finite_acyclic_wf_converse)
  let ?U = "fst ` set cfg - K"
  from miss have "u \<in> ?U" by simp
  from wfE_min[OF wf this] obtain z where z: "z \<in> ?U" and min: "\<And>y. (y, z) \<in> ?E\<inverse> \<Longrightarrow> y \<notin> ?U"
    by blast
  from z obtain c where c: "(z, c) \<in> set cfg" and zK: "z \<notin> K" by auto
  from leaves c zK have "type_of c \<noteq> ''imported''" by blast
  with types c have der: "type_of c = ''derived''" by blast
  from stuck c have "\<not> ready z c K" by blast
  with zK der obtain d where d: "d \<in> set (dep_names_of c)" "d \<notin> K"
    by (auto simp: ready_def list_all_iff)
  from c der d(1) have e: "(z, d) \<in> ?E" by (auto simp: derived_refs_iff)
  then have "d \<notin> ?U" using min by blast
  with d(2) have "d \<notin> fst ` set cfg" by simp
  with e have "has_dangling cfg (derived_refs cfg)" by (auto simp: has_dangling_iff)
  with neg show False by simp
qed

lemmas build_eval =
  load_config_def Impl_init_def type_of_def rule_name_of_def params_of_def dep_names_of_def
  create_derived_def new_StatusNode_def RuleFactory_create_def json_value_def
  List.map_filter_def Let_def derive_loop.simps scan_pass.simps(2) get_status_def set_status_def

lemma get_status_leaf:
  assumes inv: "build_inv cfg st" and nc: "(n, c) \<in> set cfg"
    and k: "n \<in> fst ` set (impl_nodes st)"
  shows "get_status st n = Some Unknown \<and> fst (set_status n s st) = Inr ()
       \<and> get_status (snd (set_status n s st)) n = Some s"
proof -
  from k obtain p where p: "map_of (impl_nodes st) n = Some p" by (auto simp: keys_map_of)
  with inv nc have ok: "node_ok st n c p" by (auto simp: build_inv_def)
  then have "p < length (impl_pipeline st)" "sn_status (impl_pipeline st ! p) = Unknown"
    by (auto simp: node_ok_def leaf_node_def derived_node_def)
  with p show ?thesis by (simp add: get_status_def set_status_def)
qed


section \<open>Claims about the build\<close>

text \<open>
  C1, as stated: a failed build exposes no partial state, no node created during it can be
  observed through \<open>set_status\<close> or \<open>get_status\<close>. The code has no rollback: on the fresh
  engine \<open>leaf1\<close> does not exist; the build of \<open>ex_partial\<close> fails with the structural error,
  and afterwards \<open>leaf1\<close> exists with status Unknown and accepts an import.
\<close>

theorem C1_atomic_build_counterexample:
  "get_status Impl_init ''leaf1'' = None
   \<and> fst (load_config ex_partial Impl_init) = Inl StructuralError
   \<and> get_status (snd (load_config ex_partial Impl_init)) ''leaf1'' = Some Unknown
   \<and> fst (set_status ''leaf1'' Red (snd (load_config ex_partial Impl_init))) = Inr ()
   \<and> get_status (snd (set_status ''leaf1'' Red (snd (load_config ex_partial Impl_init)))) ''leaf1'' = Some Red"
  by (simp add: ex_partial_def build_eval)

text \<open>
  C1, amended. For every description (keys distinct) the build on a fresh engine either
  succeeds or fails with the structural error or an unknown-rule error. After a successful
  build every specification's node exists with status Unknown and accepts an import. A failed
  build is not rolled back: after it, every imported specification of the description is
  still registered on the engine, \<open>get_status\<close> returns Unknown for it, \<open>set_status\<close> on it
  succeeds and the imported value is read back.
\<close>

theorem C1_build_outcomes_amended:
  assumes "distinct (map fst cfg)"
  shows "(fst (load_config cfg Impl_init) = Inr ()
           \<or> fst (load_config cfg Impl_init) = Inl StructuralError
           \<or> (\<exists>x. fst (load_config cfg Impl_init) = Inl (UnknownRule x)))
    \<and> (fst (load_config cfg Impl_init) = Inr () \<and> (n, c) \<in> set cfg \<longrightarrow>
          get_status (snd (load_config cfg Impl_init)) n = Some Unknown
          \<and> fst (set_status n s (snd (load_config cfg Impl_init))) = Inr ())
    \<and> (fst (load_config cfg Impl_init) \<noteq> Inr () \<and> (n, c) \<in> set cfg \<and> type_of c = ''imported'' \<longrightarrow>
          get_status (snd (load_config cfg Impl_init)) n = Some Unknown
          \<and> fst (set_status n s (snd (load_config cfg Impl_init))) = Inr ()
          \<and> get_status (snd (set_status n s (snd (load_config cfg Impl_init)))) n = Some s)"
proof -
  obtain r st' where lc: "load_config cfg Impl_init = (r, st')" by (cases "load_config cfg Impl_init")
  note cases = load_config_cases[OF assms lc]
  from cases have inv: "build_inv cfg st'"
    and leaves: "\<forall>n c. (n, c) \<in> set cfg \<and> type_of c = ''imported'' \<longrightarrow> n \<in> fst ` set (impl_nodes st')"
    by blast+
  have a: "r = Inr () \<or> r = Inl StructuralError \<or> (\<exists>x. r = Inl (UnknownRule x))"
    using cases by (cases r) auto
  have b: "get_status st' n = Some Unknown \<and> fst (set_status n s st') = Inr ()"
    if "r = Inr ()" "(n, c) \<in> set cfg"
  proof -
    from cases that have "fst ` set (impl_nodes st') = fst ` set cfg" by simp
    with that have "n \<in> fst ` set (impl_nodes st')" by force
    from get_status_leaf[OF inv that(2) this] show ?thesis by simp
  qed
  have c: "get_status st' n = Some Unknown \<and> fst (set_status n s st') = Inr ()
          \<and> get_status (snd (set_status n s st')) n = Some s"
    if "(n, c) \<in> set cfg" "type_of c = ''imported''"
  proof -
    from leaves that have "n \<in> fst ` set (impl_nodes st')" by blast
    from get_status_leaf[OF inv that(1) this] show ?thesis .
  qed
  from a b c show ?thesis by (simp add: lc)
qed

theorem C1_build_outcomes_amended_witness:
  "distinct (map fst ex_partial)
   \<and> fst (load_config ex_partial Impl_init) \<noteq> Inr ()
   \<and> (''leaf1'', \<lparr>spec_type = Some ''imported'', spec_rule = None, spec_params = None,
                   spec_dependencies = None\<rparr>) \<in> set ex_partial
   \<and> get_status (snd (load_config ex_partial Impl_init)) ''leaf1'' = Some Unknown
   \<and> get_status (snd (set_status ''leaf1'' Yellow (snd (load_config ex_partial Impl_init)))) ''leaf1''
       = Some Yellow
   \<and> distinct (map fst ex_simple)
   \<and> fst (load_config ex_simple Impl_init) = Inr ()
   \<and> (''derived1'', \<lparr>spec_type = Some ''derived'', spec_rule = Some ''worst_status'',
                      spec_params = None, spec_dependencies = Some [''leaf1'', ''leaf2'']\<rparr>)
        \<in> set ex_simple
   \<and> get_status (snd (load_config ex_simple Impl_init)) ''derived1'' = Some Unknown"
  using C1_build_outcomes_amended [of ex_partial "''leaf1''" "\<lparr>spec_type = Some ''imported'',
      spec_rule = None, spec_params = None, spec_dependencies = None\<rparr>" Yellow]
    C1_build_outcomes_amended [of ex_simple "''derived1''" "\<lparr>spec_type = Some ''derived'',
      spec_rule = Some ''worst_status'', spec_params = None,
      spec_dependencies = Some [''leaf1'', ''leaf2'']\<rparr>" Green]
  by (simp add: ex_partial_def ex_simple_def build_eval)

text \<open>
  C6, as stated: the build fails with the structural error exactly when the description
  contains a dependency cycle or a dependency reference to an absent identity. Three
  descriptions show that neither direction holds for every description. In
  \<open>ex_leaf_dangling\<close> an imported specification lists an absent dependency; the first pass does
  not read dependencies, and the build succeeds. In \<open>ex_other_type\<close> there is no dependency
  reference at all, but the type of the only specification is neither "imported" nor
  "derived", so neither pass creates it and the build fails with the structural error. In
  \<open>ex_cycle_unknown_rule\<close> a node depends on itself, but the build stops earlier with the
  unknown-rule error of another node and never reaches the final test.
\<close>

theorem C6_build_failure_counterexample:
  "has_dangling ex_leaf_dangling (dependency_refs ex_leaf_dangling)
   \<and> fst (load_config ex_leaf_dangling Impl_init) = Inr ()
   \<and> \<not> has_cycle (dependency_refs ex_other_type)
   \<and> \<not> has_dangling ex_other_type (dependency_refs ex_other_type)
   \<and> fst (load_config ex_other_type Impl_init) = Inl StructuralError
   \<and> has_cycle (dependency_refs ex_cycle_unknown_rule)
   \<and> fst (load_config ex_cycle_unknown_rule Impl_init) = Inl (UnknownRule ''bogus'')"
  by (simp add: ex_leaf_dangling_def ex_other_type_def ex_cycle_unknown_rule_def
      has_dangling_def has_cycle_def dependency_refs_def build_eval)

text \<open>
  C6, amended. Take a description with distinct keys whose build on a fresh engine does not
  end in an unknown-rule error, so that the loop reaches its fixed point. Then in the final
  state no specification is ready (a further pass would create nothing), and the build fails
  with the structural error if and only if some specification remains uncreated. If moreover
  every specification has type "imported" or "derived", the build fails with the structural
  error if and only if the dependency references of the derived specifications contain a
  cycle or name an identity absent from the description.
\<close>

theorem C6_build_failure_amended:
  assumes "distinct (map fst cfg)"
    and "\<forall>x. fst (load_config cfg Impl_init) \<noteq> Inl (UnknownRule x)"
  shows "list_all (\<lambda>(n, c). \<not> ready n c (fst ` set (impl_nodes (snd (load_config cfg Impl_init))))) cfg
    \<and> (fst (load_config cfg Impl_init) = Inl StructuralError
         \<longleftrightarrow> list_ex (\<lambda>(n, c). get_status (snd (load_config cfg Impl_init)) n = None) cfg)
    \<and> (list_all (\<lambda>(n, c). type_of c = ''imported'' \<or> type_of c = ''derived'') cfg \<longrightarrow>
         (fst (load_config cfg Impl_init) = Inl StructuralError
           \<longleftrightarrow> has_cycle (derived_refs cfg) \<or> has_dangling cfg (derived_refs cfg)))"
proof -
  obtain r st' where lc: "load_config cfg Impl_init = (r, st')" by (cases "load_config cfg Impl_init")
  note cases = load_config_cases[OF assms(1) lc]
  from cases have inv: "build_inv cfg st'"
    and leaves: "\<forall>n c. (n, c) \<in> set cfg \<and> type_of c = ''imported'' \<longrightarrow> n \<in> fst ` set (impl_nodes st')"
    by blast+
  let ?K = "fst ` set (impl_nodes st')"
  from inv have sub: "?K \<subseteq> fst ` set cfg" by (simp add: build_inv_def)
  have none: "get_status st' n = None \<longleftrightarrow> n \<notin> ?K" for n
    by (auto simp: get_status_def keys_map_of split: option.splits)
  from assms(2) lc have nu: "\<forall>x. r \<noteq> Inl (UnknownRule x)" by simp
  consider (ok) "r = Inr ()" "?K = fst ` set cfg"
    | (stuck) "r = Inl StructuralError" "?K \<noteq> fst ` set cfg" "\<forall>(n, c) \<in> set cfg. \<not> ready n c ?K"
    using cases nu by (cases r) auto
  then show ?thesis
  proof cases
    case ok
    have a: "\<forall>(n, c) \<in> set cfg. \<not> ready n c ?K"
      using ok(2) by (force simp: ready_def)
    have b: "\<not> list_ex (\<lambda>(n, c). get_status st' n = None) cfg"
      using ok(2) by (force simp: list_ex_iff none)
    from complete_build_acyclic[OF inv ok(2)] a b ok(1)
    show ?thesis by (simp add: lc list_all_iff)
  next
    case stuck
    from stuck(2) sub obtain u where u: "u \<in> fst ` set cfg" "u \<notin> ?K" by blast
    then have b: "list_ex (\<lambda>(n, c). get_status st' n = None) cfg"
      by (force simp: list_ex_iff none)
    have c: "has_cycle (derived_refs cfg) \<or> has_dangling cfg (derived_refs cfg)"
      if "list_all (\<lambda>(n, c). type_of c = ''imported'' \<or> type_of c = ''derived'') cfg"
      using stuck_build_cycle_or_dangling[OF _ leaves stuck(3) u] that
      by (simp add: list_all_iff)
    from stuck(1,3) b c show ?thesis by (simp add: lc list_all_iff)
  qed
qed

theorem C6_build_failure_amended_witness:
  "distinct (map fst ex_partial)
   \<and> list_all (\<lambda>(n, c). type_of c = ''imported'' \<or> type_of c = ''derived'') ex_partial
   \<and> fst (load_config ex_partial Impl_init) = Inl StructuralError
   \<and> (has_cycle (derived_refs ex_partial) \<or> has_dangling ex_partial (derived_refs ex_partial))
   \<and> distinct (map fst ex_cycle)
   \<and> fst (load_config ex_cycle Impl_init) = Inl StructuralError
   \<and> (has_cycle (derived_refs ex_cycle) \<or> has_dangling ex_cycle (derived_refs ex_cycle))
   \<and> distinct (map fst ex_simple)
   \<and> fst (load_config ex_simple Impl_init) = Inr ()
   \<and> \<not> has_cycle (derived_refs ex_simple) \<and> \<not> has_dangling ex_simple (derived_refs ex_simple)"
  using C6_build_failure_amended [of ex_partial] C6_build_failure_amended [of ex_cycle]
    C6_build_failure_amended [of ex_simple]
  by (simp add: ex_partial_def ex_cycle_def ex_simple_def build_eval)

text \<open>
  C10. A specification without a rule name gets the rule name "worst\_status", for which the
  factory returns the Worst rule and does not fail; absent parameters are the empty set of
  parameters. In every build (keys distinct), the node created for a derived specification
  without a rule name carries the Worst rule. If the build fails with an unknown-rule error
  for the name \<open>x\<close>, then some derived specification of the description names the rule \<open>x\<close>
  explicitly, and \<open>x\<close> is none of "worst\_status", "threshold\_rollup", "majority\_vote".
\<close>

theorem C10_rule_defaults_to_worst:
  assumes "distinct (map fst cfg)"
  shows "(spec_rule c = None \<longrightarrow> rule_name_of c = ''worst_status''
            \<and> RuleFactory_create (rule_name_of c) (params_of c) = Inr WorstStatusRule)
    \<and> (spec_params c = None \<longrightarrow> params_of c = [])
    \<and> ((n, c) \<in> set cfg \<and> type_of c = ''derived'' \<and> spec_rule c = None
          \<and> map_of (impl_nodes (snd (load_config cfg Impl_init))) n = Some p
        \<longrightarrow> sn_rule (impl_pipeline (snd (load_config cfg Impl_init)) ! p) = Some WorstStatusRule)
    \<and> (fst (load_config cfg Impl_init) = Inl (UnknownRule x)
        \<longrightarrow> (\<exists>n' c'. (n', c') \<in> set cfg \<and> type_of c' = ''derived'' \<and> spec_rule c' = Some x
               \<and> x \<notin> {''worst_status'', ''threshold_rollup'', ''majority_vote''}))"
proof -
  obtain r st' where lc: "load_config cfg Impl_init = (r, st')" by (cases "load_config cfg Impl_init")
  note cases = load_config_cases[OF assms lc]
  from cases have inv: "build_inv cfg st'" by blast
  have a: "spec_rule c = None \<longrightarrow> rule_name_of c = ''worst_status''
            \<and> RuleFactory_create (rule_name_of c) (params_of c) = Inr WorstStatusRule"
    by (simp add: rule_name_of_def RuleFactory_create_def)
  have b: "spec_params c = None \<longrightarrow> params_of c = []" by (simp add: params_of_def)
  have c: "sn_rule (impl_pipeline st' ! p) = Some WorstStatusRule"
    if "(n, c) \<in> set cfg" "type_of c = ''derived''" "spec_rule c = None"
      "map_of (impl_nodes st') n = Some p"
  proof -
    from inv that have "node_ok st' n c p" by (auto simp: build_inv_def)
    with that a show ?thesis by (auto simp: node_ok_def derived_node_def)
  qed
  have d: "\<exists>n' c'. (n', c') \<in> set cfg \<and> type_of c' = ''derived'' \<and> spec_rule c' = Some x
               \<and> x \<notin> {''worst_status'', ''threshold_rollup'', ''majority_vote''}"
    if "r = Inl (UnknownRule x)"
  proof -
    from cases that obtain n' c' where nc: "(n', c') \<in> set cfg" "type_of c' = ''derived''"
      "rule_name_of c' \<notin> {''worst_status'', ''threshold_rollup'', ''majority_vote''}"
      "x = rule_name_of c'"
      by auto
    then have "spec_rule c' = Some x" by (auto simp: rule_name_of_def split: option.splits)
    with nc show ?thesis by blast
  qed
  from a b c d show ?thesis unfolding lc fst_conv snd_conv by blast
qed

theorem C10_rule_defaults_to_worst_witness:
  "distinct (map fst ex_default_rule)
   \<and> map_of (impl_nodes (snd (load_config ex_default_rule Impl_init))) ''d1'' = Some 1
   \<and> sn_rule (impl_pipeline (snd (load_config ex_default_rule Impl_init)) ! 1) = Some WorstStatusRule
   \<and> fst (load_config ex_default_rule Impl_init) = Inl (UnknownRule ''bogus'')"
  using C10_rule_defaults_to_worst [of ex_default_rule "\<lparr>spec_type = Some ''derived'',
      spec_rule = None, spec_params = None, spec_dependencies = Some [''a'']\<rparr>" "''d1''" 1 "''bogus''"]
  by (simp add: ex_default_rule_def build_eval)

section \<open>Evaluation: consistency, determinism, idempotence\<close>

lemma run_length [simp]: "length (StatusNode_run p pl) = length pl"
  by (simp add: StatusNode_run_def split: option.splits)

lemma run_nth_other: "q \<noteq> p \<Longrightarrow> StatusNode_run p pl ! q = pl ! q"
  by (simp add: StatusNode_run_def split: option.splits)

lemma run_nth_fields:
  "q < length pl \<Longrightarrow>
     sn_name (StatusNode_run p pl ! q) = sn_name (pl ! q)
   \<and> sn_rule (StatusNode_run p pl ! q) = sn_rule (pl ! q)
   \<and> sn_dependencies (StatusNode_run p pl ! q) = sn_dependencies (pl ! q)
   \<and> (sn_rule (pl ! q) = None \<longrightarrow> sn_status (StatusNode_run p pl ! q) = sn_status (pl ! q))"
  by (cases "q = p") (auto simp: StatusNode_run_def nth_list_update split: option.splits)

lemma consistent_None: "sn_rule (pl ! p) = None \<Longrightarrow> consistent pl p"
  by (simp add: consistent_def)

lemma consistent_Some:
  "sn_rule (pl ! p) = Some r \<Longrightarrow>
     consistent pl p \<longleftrightarrow>
       sn_status (pl ! p) =
         RollupRule_compute r (map (\<lambda>dep. sn_status (pl ! dep)) (sn_dependencies (pl ! p)))"
  by (simp add: consistent_def)

lemma run_consistent_self:
  assumes "p < length pl" and "\<forall>d \<in> set (sn_dependencies (pl ! p)). d \<noteq> p"
  shows "consistent (StatusNode_run p pl) p"
proof (cases "sn_rule (pl ! p)")
  case None
  then show ?thesis by (simp add: consistent_None StatusNode_run_def)
next
  case (Some r)
  let ?v = "RollupRule_compute r (map (\<lambda>dep. sn_status (pl ! dep)) (sn_dependencies (pl ! p)))"
  let ?pl' = "pl[p := (pl ! p)\<lparr>sn_status := ?v\<rparr>]"
  have run: "StatusNode_run p pl = ?pl'" using Some by (simp add: StatusNode_run_def)
  have nth: "?pl' ! p = (pl ! p)\<lparr>sn_status := ?v\<rparr>" using assms(1) by simp
  have m: "map (\<lambda>dep. sn_status (?pl' ! dep)) (sn_dependencies (pl ! p))
      = map (\<lambda>dep. sn_status (pl ! dep)) (sn_dependencies (pl ! p))"
    by (rule map_cong[OF refl]) (use assms(2) in \<open>auto simp: nth_list_update\<close>)
  have r: "sn_rule (?pl' ! p) = Some r" using Some by (simp add: nth)
  have "consistent ?pl' p"
    unfolding consistent_Some[OF r] by (simp add: nth m)
  then show ?thesis by (simp add: run)
qed

lemma run_consistent_other:
  assumes "consistent pl q" and "q \<noteq> p" and "\<forall>d \<in> set (sn_dependencies (pl ! q)). d \<noteq> p"
  shows "consistent (StatusNode_run p pl) q"
proof (cases "sn_rule (pl ! q)")
  case None
  with assms(2) show ?thesis by (simp add: consistent_None run_nth_other)
next
  case (Some r)
  have m: "map (\<lambda>dep. sn_status (StatusNode_run p pl ! dep)) (sn_dependencies (pl ! q))
      = map (\<lambda>dep. sn_status (pl ! dep)) (sn_dependencies (pl ! q))"
    by (rule map_cong[OF refl]) (use assms(3) in \<open>auto simp: run_nth_other\<close>)
  from Some assms(2) have r: "sn_rule (StatusNode_run p pl ! q) = Some r"
    by (simp add: run_nth_other)
  from assms(1) Some have "sn_status (pl ! q) =
      RollupRule_compute r (map (\<lambda>dep. sn_status (pl ! dep)) (sn_dependencies (pl ! q)))"
    by (simp add: consistent_Some)
  with assms(2) show ?thesis
    unfolding consistent_Some[OF r] by (simp add: run_nth_other m)
qed

text \<open>The state after the first \<open>k\<close> elements have run.\<close>

lemma process_prefix:
  assumes de: "deps_earlier pl" and k: "k \<le> length pl"
  shows "length (fold StatusNode_run [0..<k] pl) = length pl
     \<and> (\<forall>q < length pl.
           sn_name (fold StatusNode_run [0..<k] pl ! q) = sn_name (pl ! q)
         \<and> sn_rule (fold StatusNode_run [0..<k] pl ! q) = sn_rule (pl ! q)
         \<and> sn_dependencies (fold StatusNode_run [0..<k] pl ! q) = sn_dependencies (pl ! q)
         \<and> (sn_rule (pl ! q) = None \<longrightarrow>
              sn_status (fold StatusNode_run [0..<k] pl ! q) = sn_status (pl ! q)))
     \<and> (\<forall>q < k. consistent (fold StatusNode_run [0..<k] pl) q)"
  using k
proof (induction k)
  case 0
  then show ?case by simp
next
  case (Suc k)
  let ?a = "fold StatusNode_run [0..<k] pl"
  from Suc have IH: "length ?a = length pl"
    "\<forall>q < length pl.
           sn_name (?a ! q) = sn_name (pl ! q)
         \<and> sn_rule (?a ! q) = sn_rule (pl ! q)
         \<and> sn_dependencies (?a ! q) = sn_dependencies (pl ! q)
         \<and> (sn_rule (pl ! q) = None \<longrightarrow> sn_status (?a ! q) = sn_status (pl ! q))"
    "\<forall>q < k. consistent ?a q"
    by simp_all
  from Suc.prems have kl: "k < length pl" by simp
  have step: "fold StatusNode_run [0..<Suc k] pl = StatusNode_run k ?a" by simp
  have deps: "\<forall>d \<in> set (sn_dependencies (?a ! q)). d < q" if "q < length pl" for q
    using de IH(2) that by (simp add: deps_earlier_def)
  have 1: "length (StatusNode_run k ?a) = length pl" using IH(1) by simp
  have 2: "sn_name (StatusNode_run k ?a ! q) = sn_name (pl ! q)
         \<and> sn_rule (StatusNode_run k ?a ! q) = sn_rule (pl ! q)
         \<and> sn_dependencies (StatusNode_run k ?a ! q) = sn_dependencies (pl ! q)
         \<and> (sn_rule (pl ! q) = None \<longrightarrow> sn_status (StatusNode_run k ?a ! q) = sn_status (pl ! q))"
    if "q < length pl" for q
    using run_nth_fields[of q ?a k] IH(1,2) that by simp
  have 3: "consistent (StatusNode_run k ?a) q" if "q < Suc k" for q
  proof (cases "q = k")
    case True
    have "\<forall>d \<in> set (sn_dependencies (?a ! k)). d \<noteq> k" using deps[OF kl] by auto
    with True kl IH(1) show ?thesis by (simp add: run_consistent_self)
  next
    case False
    with that have qk: "q < k" by simp
    with kl have "q < length pl" by simp
    from deps[OF this] qk have "\<forall>d \<in> set (sn_dependencies (?a ! q)). d \<noteq> k" by auto
    with IH(3) qk False show ?thesis by (simp add: run_consistent_other)
  qed
  from 1 2 3 show ?case unfolding step by blast
qed

lemma consistent_unique:
  assumes len: "length a = length b"
    and top: "\<forall>q < length a. sn_name (a ! q) = sn_name (b ! q) \<and> sn_rule (a ! q) = sn_rule (b ! q)
                \<and> sn_dependencies (a ! q) = sn_dependencies (b ! q)
                \<and> (sn_rule (a ! q) = None \<longrightarrow> sn_status (a ! q) = sn_status (b ! q))"
    and de: "deps_earlier a"
    and ca: "\<forall>q < length a. consistent a q" and cb: "\<forall>q < length a. consistent b q"
  shows "a = b"
proof (rule nth_equalityI[OF len])
  fix q assume "q < length a"
  then show "a ! q = b ! q"
  proof (induction q rule: less_induct)
    case (less q)
    from top less.prems have f: "sn_name (a ! q) = sn_name (b ! q)" "sn_rule (a ! q) = sn_rule (b ! q)"
      "sn_dependencies (a ! q) = sn_dependencies (b ! q)"
      "sn_rule (a ! q) = None \<longrightarrow> sn_status (a ! q) = sn_status (b ! q)"
      by auto
    have "sn_status (a ! q) = sn_status (b ! q)"
    proof (cases "sn_rule (a ! q)")
      case None
      with f show ?thesis by simp
    next
      case (Some r)
      have m: "map (\<lambda>dep. sn_status (a ! dep)) (sn_dependencies (a ! q))
          = map (\<lambda>dep. sn_status (b ! dep)) (sn_dependencies (a ! q))"
      proof (rule map_cong[OF refl])
        fix d assume "d \<in> set (sn_dependencies (a ! q))"
        with de less.prems have "d < q" by (auto simp: deps_earlier_def)
        with less.IH less.prems show "sn_status (a ! d) = sn_status (b ! d)" by simp
      qed
      from ca cb less.prems have c: "consistent a q" "consistent b q" by auto
      from Some f have rb: "sn_rule (b ! q) = Some r" by simp
      from c(1) have "sn_status (a ! q) = RollupRule_compute r
          (map (\<lambda>dep. sn_status (a ! dep)) (sn_dependencies (a ! q)))"
        by (simp add: consistent_Some[OF Some])
      also have "\<dots> = RollupRule_compute r
          (map (\<lambda>dep. sn_status (b ! dep)) (sn_dependencies (a ! q)))"
        by (simp only: m)
      also from c(2) f have "\<dots> = sn_status (b ! q)"
        by (simp add: consistent_Some[OF rb])
      finally show ?thesis .
    qed
    with f show ?case by (simp add: StatusNode.equality)
  qed
qed


lemma same_topology_nth:
  "same_topology a b \<longleftrightarrow>
     length a = length b
     \<and> (\<forall>q < length a. sn_name (a ! q) = sn_name (b ! q) \<and> sn_rule (a ! q) = sn_rule (b ! q)
            \<and> sn_dependencies (a ! q) = sn_dependencies (b ! q))"
  by (simp add: same_topology_def list_all2_conv_all_nth)

lemma same_leaf_statuses_nth:
  "same_leaf_statuses a b \<longleftrightarrow>
     length a = length b
     \<and> (\<forall>q < length a. sn_rule (a ! q) = None \<longrightarrow> sn_status (a ! q) = sn_status (b ! q))"
  by (simp add: same_leaf_statuses_def list_all2_conv_all_nth)

lemma same_topology_refl: "same_topology a a"
  by (simp add: same_topology_nth)

lemma same_topology_sym: "same_topology a b \<Longrightarrow> same_topology b a"
  by (simp add: same_topology_nth)

lemma same_topology_trans: "same_topology a b \<Longrightarrow> same_topology b c \<Longrightarrow> same_topology a c"
  by (simp add: same_topology_nth)

lemma deps_earlier_topology: "same_topology a b \<Longrightarrow> deps_earlier a \<Longrightarrow> deps_earlier b"
  by (simp add: same_topology_nth deps_earlier_def)

lemma process_facts:
  assumes "deps_earlier pl"
  shows "same_topology pl (GPipeline_process pl)"
    and "same_leaf_statuses pl (GPipeline_process pl)"
    and "\<forall>q < length pl. consistent (GPipeline_process pl) q"
  using process_prefix[OF assms order_refl]
  by (simp_all add: GPipeline_process_def same_topology_nth same_leaf_statuses_nth)

text \<open>
  The result of an evaluation is determined by the topology, the rules and the statuses of
  the nodes without a rule.
\<close>

lemma process_deterministic:
  assumes de: "deps_earlier a" and top: "same_topology a b" and leaf: "same_leaf_statuses a b"
  shows "GPipeline_process a = GPipeline_process b"
proof -
  from de top have deb: "deps_earlier b" by (rule deps_earlier_topology[rotated])
  note fa = process_facts[OF de] and fb = process_facts[OF deb]
  from top have len: "length a = length b" by (simp add: same_topology_nth)
  show ?thesis
  proof (rule consistent_unique)
    show "length (GPipeline_process a) = length (GPipeline_process b)"
      using fa(1) fb(1) len by (simp add: same_topology_nth)
    show "deps_earlier (GPipeline_process a)"
      using fa(1) de by (rule deps_earlier_topology)
    show "\<forall>q < length (GPipeline_process a). consistent (GPipeline_process a) q"
      using fa(1,3) by (simp add: same_topology_nth)
    show "\<forall>q < length (GPipeline_process a). consistent (GPipeline_process b) q"
      using fa(1) fb(3) len by (simp add: same_topology_nth)
    show "\<forall>q < length (GPipeline_process a).
            sn_name (GPipeline_process a ! q) = sn_name (GPipeline_process b ! q)
          \<and> sn_rule (GPipeline_process a ! q) = sn_rule (GPipeline_process b ! q)
          \<and> sn_dependencies (GPipeline_process a ! q) = sn_dependencies (GPipeline_process b ! q)
          \<and> (sn_rule (GPipeline_process a ! q) = None \<longrightarrow>
               sn_status (GPipeline_process a ! q) = sn_status (GPipeline_process b ! q))"
    proof (intro allI impI)
      fix q assume "q < length (GPipeline_process a)"
      with fa(1) have q: "q < length a" "q < length b" using len by (simp_all add: same_topology_nth)
      from fa(1) q have 1: "sn_name (GPipeline_process a ! q) = sn_name (a ! q)"
        "sn_rule (GPipeline_process a ! q) = sn_rule (a ! q)"
        "sn_dependencies (GPipeline_process a ! q) = sn_dependencies (a ! q)"
        by (simp_all add: same_topology_nth)
      from fb(1) q have 2: "sn_name (GPipeline_process b ! q) = sn_name (b ! q)"
        "sn_rule (GPipeline_process b ! q) = sn_rule (b ! q)"
        "sn_dependencies (GPipeline_process b ! q) = sn_dependencies (b ! q)"
        by (simp_all add: same_topology_nth)
      from top q have 3: "sn_name (a ! q) = sn_name (b ! q)" "sn_rule (a ! q) = sn_rule (b ! q)"
        "sn_dependencies (a ! q) = sn_dependencies (b ! q)"
        by (simp_all add: same_topology_nth)
      have 4: "sn_status (GPipeline_process a ! q) = sn_status (GPipeline_process b ! q)"
        if n: "sn_rule (a ! q) = None"
      proof -
        from fa(2) q n have "sn_status (GPipeline_process a ! q) = sn_status (a ! q)"
          by (simp add: same_leaf_statuses_nth)
        moreover from leaf q n have "sn_status (a ! q) = sn_status (b ! q)"
          by (simp add: same_leaf_statuses_nth)
        moreover from fb(2) q n 3 have "sn_status (GPipeline_process b ! q) = sn_status (b ! q)"
          by (simp add: same_leaf_statuses_nth)
        ultimately show ?thesis by simp
      qed
      from 1 2 3 4 show "sn_name (GPipeline_process a ! q) = sn_name (GPipeline_process b ! q)
          \<and> sn_rule (GPipeline_process a ! q) = sn_rule (GPipeline_process b ! q)
          \<and> sn_dependencies (GPipeline_process a ! q) = sn_dependencies (GPipeline_process b ! q)
          \<and> (sn_rule (GPipeline_process a ! q) = None \<longrightarrow>
               sn_status (GPipeline_process a ! q) = sn_status (GPipeline_process b ! q))"
        by simp
    qed
  qed
qed

lemma process_idempotent:
  assumes "deps_earlier pl"
  shows "GPipeline_process (GPipeline_process pl) = GPipeline_process pl"
proof (rule process_deterministic)
  note f = process_facts[OF assms]
  show "deps_earlier (GPipeline_process pl)" using f(1) assms by (rule deps_earlier_topology)
  show "same_topology (GPipeline_process pl) pl" using f(1) by (rule same_topology_sym)
  show "same_leaf_statuses (GPipeline_process pl) pl"
    using f(1,2) by (simp add: same_leaf_statuses_nth same_topology_nth)
qed

lemma status_update_topology: "same_topology pl (pl[p := (pl ! p)\<lparr>sn_status := s\<rparr>])"
proof (cases "p < length pl")
  case True
  then show ?thesis by (simp add: same_topology_nth nth_list_update)
next
  case False
  then have "pl[p := (pl ! p)\<lparr>sn_status := s\<rparr>] = pl" by (simp add: list_update_beyond)
  then show ?thesis by (simp add: same_topology_refl)
qed

lemma schedule_ok_distinct:
  "schedule_ok pl done ord \<Longrightarrow> distinct done \<Longrightarrow>
     distinct (done @ ord) \<and> (\<forall>p \<in> set ord. p < length pl)"
proof (induction ord arbitrary: "done")
  case Nil
  then show ?case by simp
next
  case (Cons p ps)
  from Cons.prems have "schedule_ok pl (done @ [p]) ps" "distinct (done @ [p])" "p < length pl"
    by simp_all
  from Cons.IH[OF this(1,2)] this(3) show ?case by simp
qed

lemma valid_schedule_covers:
  assumes "valid_schedule pl ord"
  shows "set ord = {..<length pl}"
proof -
  from assms have ok: "schedule_ok pl [] ord" and len: "length ord = length pl"
    by (simp_all add: valid_schedule_def)
  from schedule_ok_distinct[OF ok] have d: "distinct ord" and b: "set ord \<subseteq> {..<length pl}"
    by auto
  from d len have "card (set ord) = card {..<length pl}" by (simp add: distinct_card)
  with b show ?thesis by (simp add: card_subset_eq)
qed

lemma run_same_topology: "same_topology pl (StatusNode_run p pl)"
  unfolding same_topology_nth using run_nth_fields[of _ pl p] by simp

lemma run_same_leaf_statuses: "same_leaf_statuses pl (StatusNode_run p pl)"
  unfolding same_leaf_statuses_nth using run_nth_fields[of _ pl p] by simp

lemma same_leaf_statuses_trans:
  "same_topology a b \<Longrightarrow> same_leaf_statuses a b \<Longrightarrow> same_leaf_statuses b c
     \<Longrightarrow> same_leaf_statuses a c"
  by (simp add: same_leaf_statuses_nth same_topology_nth)

lemma schedule_prefix:
  assumes "schedule_ok pl done ord"
    and "same_topology pl cur" and "same_leaf_statuses pl cur"
    and "\<forall>q \<in> set done. q < length pl \<and> consistent cur q
            \<and> (\<forall>d \<in> set (sn_dependencies (pl ! q)). d \<in> set done)"
  shows "same_topology pl (fold StatusNode_run ord cur)
     \<and> same_leaf_statuses pl (fold StatusNode_run ord cur)
     \<and> (\<forall>q \<in> set done \<union> set ord. consistent (fold StatusNode_run ord cur) q)"
  using assms
proof (induction ord arbitrary: "done" cur)
  case Nil
  then show ?case by simp
next
  case (Cons p ps)
  let ?cur' = "StatusNode_run p cur"
  from Cons.prems(1) have p: "p < length pl" "p \<notin> set done"
    and dp: "\<forall>d \<in> set (sn_dependencies (pl ! p)). d \<in> set done"
    and ok: "schedule_ok pl (done @ [p]) ps"
    by (simp_all add: list_all_iff)
  from Cons.prems(2) have len: "length cur = length pl"
    and deps: "\<And>q. q < length pl \<Longrightarrow> sn_dependencies (cur ! q) = sn_dependencies (pl ! q)"
    by (simp_all add: same_topology_nth)
  have top': "same_topology pl ?cur'"
    using Cons.prems(2) run_same_topology by (rule same_topology_trans)
  have leaf': "same_leaf_statuses pl ?cur'"
    using Cons.prems(2,3) run_same_leaf_statuses by (rule same_leaf_statuses_trans)
  have self: "consistent ?cur' p"
  proof (rule run_consistent_self)
    show "p < length cur" using p len by simp
    show "\<forall>d \<in> set (sn_dependencies (cur ! p)). d \<noteq> p" using dp p deps by auto
  qed
  have other: "consistent ?cur' q" if q: "q \<in> set done" for q
  proof (rule run_consistent_other)
    from Cons.prems(4) q show "consistent cur q" by blast
    from q p show "q \<noteq> p" by auto
    from Cons.prems(4) q have "q < length pl" "\<forall>d \<in> set (sn_dependencies (pl ! q)). d \<in> set done"
      by blast+
    with deps p show "\<forall>d \<in> set (sn_dependencies (cur ! q)). d \<noteq> p" by auto
  qed
  have inv': "\<forall>q \<in> set (done @ [p]). q < length pl \<and> consistent ?cur' q
            \<and> (\<forall>d \<in> set (sn_dependencies (pl ! q)). d \<in> set (done @ [p]))"
    using Cons.prems(4) p dp self other by auto
  from Cons.IH[OF ok top' leaf' inv'] show ?case by auto
qed

text \<open>
  Every order that runs each element once, after its dependencies, gives the result of the
  registration order.
\<close>

lemma process_any_schedule:
  assumes de: "deps_earlier pl" and vs: "valid_schedule pl ord"
  shows "fold StatusNode_run ord pl = GPipeline_process pl"
proof -
  let ?a = "fold StatusNode_run ord pl"
  from vs have ok: "schedule_ok pl [] ord" by (simp add: valid_schedule_def)
  have "same_leaf_statuses pl pl" by (simp add: same_leaf_statuses_nth)
  from schedule_prefix[OF ok same_topology_refl this]
  have ta: "same_topology pl ?a" and la: "same_leaf_statuses pl ?a"
    and ca: "\<forall>q \<in> set ord. consistent ?a q"
    by simp_all
  note fb = process_facts[OF de]
  from ta have len: "length ?a = length pl" by (simp add: same_topology_nth)
  show ?thesis
  proof (rule consistent_unique)
    show "length ?a = length (GPipeline_process pl)"
      using len fb(1) by (simp add: same_topology_nth)
    show "deps_earlier ?a" using ta de by (rule deps_earlier_topology)
    show "\<forall>q < length ?a. consistent ?a q"
      using ca valid_schedule_covers[OF vs] len by simp
    show "\<forall>q < length ?a. consistent (GPipeline_process pl) q"
      using fb(3) len by simp
    show "\<forall>q < length ?a.
            sn_name (?a ! q) = sn_name (GPipeline_process pl ! q)
          \<and> sn_rule (?a ! q) = sn_rule (GPipeline_process pl ! q)
          \<and> sn_dependencies (?a ! q) = sn_dependencies (GPipeline_process pl ! q)
          \<and> (sn_rule (?a ! q) = None \<longrightarrow> sn_status (?a ! q) = sn_status (GPipeline_process pl ! q))"
      using ta la fb(1,2) len
      by (simp add: same_topology_nth same_leaf_statuses_nth)
  qed
qed

lemma set_status_fields:
  "impl_nodes (snd (set_status n s st)) = impl_nodes st
   \<and> impl_leaf_nodes (snd (set_status n s st)) = impl_leaf_nodes st
   \<and> same_topology (impl_pipeline st) (impl_pipeline (snd (set_status n s st)))"
  by (simp add: set_status_def same_topology_refl status_update_topology split: option.splits)

lemma compute_fields:
  "impl_nodes (compute st) = impl_nodes st"
  "impl_leaf_nodes (compute st) = impl_leaf_nodes st"
  "impl_pipeline (compute st) = GPipeline_process (impl_pipeline st)"
  by (simp_all add: compute_def)

lemma run_ops_fields:
  assumes "deps_earlier (impl_pipeline t)"
  shows "impl_nodes (run_ops ops t) = impl_nodes t
     \<and> impl_leaf_nodes (run_ops ops t) = impl_leaf_nodes t
     \<and> same_topology (impl_pipeline t) (impl_pipeline (run_ops ops t))"
proof (induction ops rule: rev_induct)
  case Nil
  then show ?case by (simp add: run_ops_def same_topology_refl)
next
  case (snoc x xs)
  let ?u = "run_ops xs t"
  have step: "run_ops (xs @ [x]) t = apply_op x ?u" by (simp add: run_ops_def)
  from snoc have top: "same_topology (impl_pipeline t) (impl_pipeline ?u)" by simp
  then have de: "deps_earlier (impl_pipeline ?u)" using assms by (rule deps_earlier_topology)
  show ?case
  proof (cases x)
    case (Import n s)
    from set_status_fields[of n s ?u] top
    have "same_topology (impl_pipeline t) (impl_pipeline (snd (set_status n s ?u)))"
      by (auto intro: same_topology_trans)
    with snoc step Import set_status_fields[of n s ?u] show ?thesis by simp
  next
    case Evaluate
    from process_facts(1)[OF de] top
    have "same_topology (impl_pipeline t) (GPipeline_process (impl_pipeline ?u))"
      by (auto intro: same_topology_trans)
    with snoc step Evaluate show ?thesis by (simp add: compute_fields)
  qed
qed

lemma compute_idempotent:
  "deps_earlier (impl_pipeline st) \<Longrightarrow> compute (compute st) = compute st"
  by (simp add: compute_def process_idempotent)

lemmas ops_eval =
  run_ops_def compute_def GPipeline_process_def StatusNode_run_def WorstStatusRule_compute_def
  same_leaf_statuses_def

lemma built_engine:
  assumes "distinct (map fst cfg)" and "load_config cfg Impl_init = (Inr (), t)"
  shows "build_inv cfg t" and "fst ` set (impl_nodes t) = fst ` set cfg"
    and "deps_earlier (impl_pipeline t)"
  using load_config_cases[OF assms] by (simp_all add: build_inv_def)


section \<open>Claims about evaluation and imports\<close>

text \<open>
  C7. Take a successfully built graph (description with distinct keys) and any state \<open>u\<close>
  reached from it by a sequence of imports and evaluations. Evaluating twice in a row gives
  the same engine state as evaluating once, so no derived status changes; so does evaluating
  any positive number of times. If a second state reached from the same build has the same
  leaf statuses, evaluation gives the same engine state from both: the derived statuses after
  evaluation depend only on the topology, the rules and the leaf statuses, not on the imports
  and evaluations that came before. Nor do they depend on the order in which the nodes run,
  as long as every node runs once and after its dependencies.
\<close>

theorem C7_evaluate_idempotent_deterministic:
  assumes "distinct (map fst cfg)" and "load_config cfg Impl_init = (Inr (), t)"
  shows "compute (compute (run_ops ops t)) = compute (run_ops ops t)
    \<and> (compute ^^ Suc k) (run_ops ops t) = compute (run_ops ops t)
    \<and> (same_leaf_statuses (impl_pipeline (run_ops ops t)) (impl_pipeline (run_ops ops' t))
         \<longrightarrow> compute (run_ops ops t) = compute (run_ops ops' t))
    \<and> (valid_schedule (impl_pipeline (run_ops ops t)) ord
         \<longrightarrow> fold StatusNode_run ord (impl_pipeline (run_ops ops t))
               = impl_pipeline (compute (run_ops ops t)))"
proof -
  note de = built_engine(3)[OF assms]
  let ?u = "run_ops ops t" and ?v = "run_ops ops' t"
  note fu = run_ops_fields[OF de, of ops] and fv = run_ops_fields[OF de, of ops']
  from fu de have deu: "deps_earlier (impl_pipeline ?u)" by (blast intro: deps_earlier_topology)
  have idem: "compute (compute ?u) = compute ?u" by (rule compute_idempotent[OF deu])
  have iter: "(compute ^^ Suc k) ?u = compute ?u"
  proof (induction k)
    case 0
    then show ?case by simp
  next
    case (Suc k)
    have "(compute ^^ Suc (Suc k)) ?u = compute ((compute ^^ Suc k) ?u)" by simp
    also have "\<dots> = compute (compute ?u)" by (simp only: Suc)
    also have "\<dots> = compute ?u" by (rule idem)
    finally show ?case .
  qed
  have det: "compute ?u = compute ?v"
    if leaf: "same_leaf_statuses (impl_pipeline ?u) (impl_pipeline ?v)"
  proof -
    from fu fv have "same_topology (impl_pipeline ?u) (impl_pipeline ?v)"
      by (blast intro: same_topology_trans same_topology_sym)
    from process_deterministic[OF deu this leaf] fu fv show ?thesis
      by (simp add: compute_def)
  qed
  have sched: "fold StatusNode_run ord (impl_pipeline ?u) = impl_pipeline (compute ?u)"
    if "valid_schedule (impl_pipeline ?u) ord"
    using process_any_schedule[OF deu that] by (simp add: compute_fields)
  from idem iter det sched show ?thesis by blast
qed

theorem C7_evaluate_idempotent_deterministic_witness:
  "distinct (map fst ex_simple)
   \<and> load_config ex_simple Impl_init = (Inr (), snd (load_config ex_simple Impl_init))
   \<and> same_leaf_statuses
       (impl_pipeline (run_ops [Import ''leaf1'' Green, Import ''leaf2'' Yellow]
          (snd (load_config ex_simple Impl_init))))
       (impl_pipeline (run_ops [Import ''derived1'' Red, Import ''leaf2'' Yellow, Evaluate,
                                Import ''leaf1'' Green, Evaluate, Evaluate]
          (snd (load_config ex_simple Impl_init))))
   \<and> compute (run_ops [Import ''leaf1'' Green, Import ''leaf2'' Yellow]
          (snd (load_config ex_simple Impl_init)))
     = compute (run_ops [Import ''derived1'' Red, Import ''leaf2'' Yellow, Evaluate,
                                Import ''leaf1'' Green, Evaluate, Evaluate]
          (snd (load_config ex_simple Impl_init)))
   \<and> get_status (compute (run_ops [Import ''leaf1'' Green, Import ''leaf2'' Yellow]
          (snd (load_config ex_simple Impl_init)))) ''derived1'' = Some Yellow
   \<and> valid_schedule (impl_pipeline (run_ops [Import ''leaf1'' Green, Import ''leaf2'' Yellow]
          (snd (load_config ex_simple Impl_init)))) [Suc 0, 0, Suc (Suc 0)]
   \<and> fold StatusNode_run [Suc 0, 0, Suc (Suc 0)]
         (impl_pipeline (run_ops [Import ''leaf1'' Green, Import ''leaf2'' Yellow]
            (snd (load_config ex_simple Impl_init))))
       = impl_pipeline (compute (run_ops [Import ''leaf1'' Green, Import ''leaf2'' Yellow]
            (snd (load_config ex_simple Impl_init))))"
  using C7_evaluate_idempotent_deterministic [of ex_simple "snd (load_config ex_simple Impl_init)"
      "[Import ''leaf1'' Green, Import ''leaf2'' Yellow]" 0
      "[Import ''derived1'' Red, Import ''leaf2'' Yellow, Evaluate,
                                Import ''leaf1'' Green, Evaluate, Evaluate]"
      "[Suc 0, 0, Suc (Suc 0)]"]
  by (simp add: ex_simple_def build_eval ops_eval valid_schedule_def)

text \<open>
  C8. Take a successfully built graph (description with distinct keys), a derived
  specification \<open>n\<close> of it, and any state reached from the build by imports and evaluations.
  Importing a status \<open>s\<close> onto \<open>n\<close> raises no error, and \<open>get_status\<close> then returns \<open>s\<close>. The
  next evaluation gives the same engine state as it would have given without the import: the
  node's status is again what its rule computes from the statuses of its dependencies, and the
  imported value is gone.
\<close>

theorem C8_import_on_derived_node:
  assumes "distinct (map fst cfg)" and "load_config cfg Impl_init = (Inr (), t)"
    and "(n, c) \<in> set cfg" and "type_of c = ''derived''"
  shows "fst (set_status n s (run_ops ops t)) = Inr ()
    \<and> get_status (snd (set_status n s (run_ops ops t))) n = Some s
    \<and> compute (snd (set_status n s (run_ops ops t))) = compute (run_ops ops t)
    \<and> (\<exists>p r. map_of (impl_nodes t) n = Some p \<and> sn_rule (impl_pipeline t ! p) = Some r
          \<and> get_status (compute (snd (set_status n s (run_ops ops t)))) n
              = Some (RollupRule_compute r
                       (map (\<lambda>dep. sn_status
                               (impl_pipeline (compute (snd (set_status n s (run_ops ops t)))) ! dep))
                            (sn_dependencies (impl_pipeline t ! p)))))"
proof -
  note b = built_engine[OF assms(1,2)]
  from assms(3) b(2) have "n \<in> fst ` set (impl_nodes t)" by force
  then obtain p where p: "map_of (impl_nodes t) n = Some p" by (auto simp: keys_map_of)
  with b(1) assms(3) have "node_ok t n c p" by (auto simp: build_inv_def)
  with assms(4) obtain r where pl: "p < length (impl_pipeline t)"
    and r: "sn_rule (impl_pipeline t ! p) = Some r"
    by (auto simp: node_ok_def derived_node_def)
  let ?u = "run_ops ops t"
  let ?pu = "impl_pipeline ?u"
  note fu = run_ops_fields[OF b(3), of ops]
  from fu have nodes: "impl_nodes ?u = impl_nodes t" and top: "same_topology (impl_pipeline t) ?pu"
    by simp_all
  from top pl r have plu: "p < length ?pu" and ru: "sn_rule (?pu ! p) = Some r"
    and du: "sn_dependencies (?pu ! p) = sn_dependencies (impl_pipeline t ! p)"
    by (simp_all add: same_topology_nth)
  from top b(3) have deu: "deps_earlier ?pu" by (rule deps_earlier_topology)
  let ?pw = "?pu[p := (?pu ! p)\<lparr>sn_status := s\<rparr>]"
  have ss: "set_status n s ?u = (Inr (), ?u\<lparr>impl_pipeline := ?pw\<rparr>)"
    using p nodes by (simp add: set_status_def)
  have 1: "fst (set_status n s ?u) = Inr ()" by (simp add: ss)
  have 2: "get_status (snd (set_status n s ?u)) n = Some s"
    using p nodes plu by (simp add: ss get_status_def)
  have topw: "same_topology ?pu ?pw" by (rule status_update_topology)
  have leafw: "same_leaf_statuses ?pw ?pu"
    using ru plu by (simp add: same_leaf_statuses_nth nth_list_update)
  have "deps_earlier ?pw" using topw deu by (rule deps_earlier_topology)
  from process_deterministic[OF this same_topology_sym[OF topw] leafw]
  have 3: "compute (snd (set_status n s ?u)) = compute ?u"
    by (simp add: ss compute_def)
  from process_facts[OF deu] plu have "consistent (GPipeline_process ?pu) p"
    and "same_topology ?pu (GPipeline_process ?pu)"
    by simp_all
  with ru du plu have "sn_status (GPipeline_process ?pu ! p)
      = RollupRule_compute r (map (\<lambda>dep. sn_status (GPipeline_process ?pu ! dep))
           (sn_dependencies (impl_pipeline t ! p)))"
    by (simp add: same_topology_nth consistent_def)
  with p nodes have 4: "get_status (compute ?u) n
      = Some (RollupRule_compute r (map (\<lambda>dep. sn_status (impl_pipeline (compute ?u) ! dep))
           (sn_dependencies (impl_pipeline t ! p))))"
    by (simp add: get_status_def compute_fields)
  from 1 2 3 4 p r show ?thesis by simp
qed

theorem C8_import_on_derived_node_witness:
  "distinct (map fst ex_simple)
   \<and> load_config ex_simple Impl_init = (Inr (), snd (load_config ex_simple Impl_init))
   \<and> get_status (snd (set_status ''derived1'' Red
        (run_ops [Import ''leaf1'' Green, Import ''leaf2'' Yellow, Evaluate]
           (snd (load_config ex_simple Impl_init))))) ''derived1'' = Some Red
   \<and> get_status (compute (snd (set_status ''derived1'' Red
        (run_ops [Import ''leaf1'' Green, Import ''leaf2'' Yellow, Evaluate]
           (snd (load_config ex_simple Impl_init)))))) ''derived1'' = Some Yellow"
  using C8_import_on_derived_node [of ex_simple "snd (load_config ex_simple Impl_init)"
      "''derived1''"
      "\<lparr>spec_type = Some ''derived'', spec_rule = Some ''worst_status'',
                      spec_params = None, spec_dependencies = Some [''leaf1'', ''leaf2'']\<rparr>"
      Red "[Import ''leaf1'' Green, Import ''leaf2'' Yellow, Evaluate]"]
  by (simp add: ex_simple_def build_eval ops_eval)

end
